theory Spec2Isabelle
  imports Main "HOL-Library.Word"
begin

unbundle bit_operations_syntax

section \<open>Common conventions\<close>

text \<open>
  A pointer is modelled by its numeric address, a natural number; \<open>NULL\<close> is address 0.
  Pointer arithmetic on \<open>uint8_t*\<close> adds bytes, on \<open>uintptr_t*\<close> it adds words of
  eight bytes. An \<open>assert\<close> whose condition is false ends the process; it is a value
  \<open>AssertionFailed\<close> carrying the message of the assertion.
\<close>

type_synonym addr = nat

datatype failure = AssertionFailed string

definition NULL :: addr where
  "NULL = 0"

section \<open>libitm2stm: Scope (Scope.cpp)\<close>

text \<open>
  Application memory as \<open>LoggedWord::undo\<close> sees it: bytes, written by
  \<open>__builtin_memcpy(address_, &value_, bytes_)\<close>. The machine is little-endian, so byte
  \<open>i\<close> of the object \<open>value_\<close> is bits \<open>8 i .. 8 i + 7\<close> of the word. A logged
  word has at most the eight bytes of \<open>value_\<close>.
\<close>

type_synonym byte_memory = "addr \<Rightarrow> 8 word"

definition value_byte :: "64 word \<Rightarrow> nat \<Rightarrow> 8 word" where
  "value_byte v i = ucast (drop_bit (8 * i) v)"

definition memcpy :: "byte_memory \<Rightarrow> addr \<Rightarrow> 64 word \<Rightarrow> nat \<Rightarrow> byte_memory" where
  "memcpy m dst v n = (\<lambda>a. if dst \<le> a \<and> a < dst + n then value_byte v (a - dst) else m a)"

text \<open>\<open>Scope::ThrownObject\<close> is a \<open>pair<uintptr_t*, size_t>\<close>: first address and length in bytes.\<close>

type_synonym ThrownObject = "addr \<times> nat"

definition ThrownObject_begin :: "ThrownObject \<Rightarrow> addr" where
  "ThrownObject_begin t = fst t"

definition ThrownObject_end :: "ThrownObject \<Rightarrow> addr" where
  "ThrownObject_end t = fst t + snd t"

text \<open>
  The fields \<open>address_\<close>, \<open>value_\<close> and \<open>bytes_\<close> of \<open>Scope::LoggedWord\<close>; the
  members of \<open>Scope\<close> below likewise lose the trailing underscore of the source.
\<close>

record LoggedWord =
  w_address :: addr
  w_value :: "64 word"
  w_bytes :: nat

definition LoggedWord_begin :: "LoggedWord \<Rightarrow> addr" where
  "LoggedWord_begin w = w_address w"

definition LoggedWord_end :: "LoggedWord \<Rightarrow> addr" where
  "LoggedWord_end w = w_address w + w_bytes w"

text \<open>
  \<open>Scope::LoggedWord::clip\<close>, statement by statement. The first two \<open>if\<close>s return; the
  two clipping \<open>if\<close>s do not, so control continues with the word as they left it
  (\<open>w1\<close>, then \<open>w2\<close>) into the two assertions at the end of the function.
\<close>

definition clip_end :: "LoggedWord \<Rightarrow> addr \<Rightarrow> addr \<Rightarrow> LoggedWord" where
  "clip_end w lower upper =
     (if LoggedWord_begin w < lower \<and> LoggedWord_end w < upper
      then w\<lparr>w_bytes := lower - LoggedWord_begin w\<rparr>
      else w)"

definition clip_begin :: "LoggedWord \<Rightarrow> addr \<Rightarrow> addr \<Rightarrow> LoggedWord" where
  "clip_begin w lower upper =
     (if LoggedWord_begin w > lower \<and> LoggedWord_end w > upper
      then w\<lparr>w_value := drop_bit ((upper - LoggedWord_begin w) * 8) (w_value w),
             w_bytes := LoggedWord_end w - upper,
             w_address := upper\<rparr>
      else w)"

definition clip :: "LoggedWord \<Rightarrow> addr \<Rightarrow> addr \<Rightarrow> failure + LoggedWord" where
  "clip w lower upper =
     (if LoggedWord_end w \<le> lower \<or> LoggedWord_begin w \<ge> upper then Inr w
      else if LoggedWord_begin w \<ge> lower \<and> LoggedWord_end w \<le> upper then Inr (w\<lparr>w_bytes := 0\<rparr>)
      else
        let w1 = clip_end w lower upper;
            w2 = clip_begin w1 lower upper
        in if LoggedWord_begin w2 > lower \<and> LoggedWord_end w2 < upper - 1
           then Inl (AssertionFailed ''Logged value has incompatible range intersection'')
           else Inl (AssertionFailed ''unreachable''))"

text \<open>\<open>Scope::LoggedWord::undo\<close>: clip in place, then copy \<open>bytes_\<close> bytes of the value.\<close>

definition LoggedWord_undo ::
  "LoggedWord \<Rightarrow> ThrownObject \<Rightarrow> byte_memory \<Rightarrow> failure + (LoggedWord \<times> byte_memory)" where
  "LoggedWord_undo w t m =
     (case clip w (ThrownObject_begin t) (ThrownObject_end t) of
        Inl f \<Rightarrow> Inl f
      | Inr w' \<Rightarrow> Inr (w', memcpy m (w_address w') (w_value w') (w_bytes w')))"

text \<open>
  A registered callback (\<open>i->eval()\<close>) is a user function; its effect on application
  memory is a function on \<open>byte_memory\<close>.
\<close>

type_synonym callback = "byte_memory \<Rightarrow> byte_memory"

record Scope =
  aborted :: bool
  flags :: nat
  scope_id :: nat
  thrown :: ThrownObject
  do_on_rollback :: "callback list"
  undo_on_rollback :: "LoggedWord list"
  do_on_commit :: "callback list"

text \<open>
  Step 1 of \<open>Scope::rollback\<close>: the iterator runs from \<open>end() - 1\<close> down to
  \<open>begin()\<close>; \<open>undo_loop (Suc i)\<close> is the iteration at position \<open>i\<close>, which updates
  that entry in place.
\<close>

fun undo_loop ::
  "nat \<Rightarrow> LoggedWord list \<Rightarrow> ThrownObject \<Rightarrow> byte_memory \<Rightarrow> failure + (LoggedWord list \<times> byte_memory)" where
  "undo_loop 0 ws t m = Inr (ws, m)"
| "undo_loop (Suc i) ws t m =
     (case LoggedWord_undo (ws ! i) t m of
        Inl f \<Rightarrow> Inl f
      | Inr (w', m') \<Rightarrow> undo_loop i (ws[i := w']) t m')"

text \<open>Step 2: the callbacks in FIFO order.\<close>

fun eval_callbacks :: "callback list \<Rightarrow> byte_memory \<Rightarrow> byte_memory" where
  "eval_callbacks [] m = m"
| "eval_callbacks (cb # cbs) m = eval_callbacks cbs (cb m)"

definition Scope_rollback ::
  "Scope \<Rightarrow> byte_memory \<Rightarrow> failure + (ThrownObject \<times> Scope \<times> byte_memory)" where
  "Scope_rollback s m =
     (case undo_loop (length (undo_on_rollback s)) (undo_on_rollback s) (thrown s) m of
        Inl f \<Rightarrow> Inl f
      | Inr (ws', m1) \<Rightarrow>
          let m2 = eval_callbacks (do_on_rollback s) m1;
              s' = s\<lparr>undo_on_rollback := ws', do_on_commit := [], aborted := True\<rparr>
          in Inr (thrown s', s', m2))"

definition setThrownObject :: "Scope \<Rightarrow> addr \<Rightarrow> nat \<Rightarrow> failure + Scope" where
  "setThrownObject s a len =
     (if fst (thrown s) = NULL then Inr (s\<lparr>thrown := (a, len)\<rparr>)
      else Inl (AssertionFailed ''Only one thrown object expected per-scope''))"

text \<open>
  Modelled from the spec: \<open>ThrownObject::reset\<close> is declared in Scope.h, which is not
  among the sources. The spec has one protected range per scope and \<open>setThrownObject\<close>
  tests \<open>first == NULL\<close> for "none"; reset gives the empty pair \<open>(NULL, 0)\<close>.
\<close>

definition ThrownObject_reset :: "ThrownObject \<Rightarrow> ThrownObject" where
  "ThrownObject_reset t = (NULL, 0)"

definition clearThrownObject :: "Scope \<Rightarrow> Scope" where
  "clearThrownObject s = s\<lparr>thrown := ThrownObject_reset (thrown s)\<rparr>"

text \<open>
  \<open>tmabort\<close> (libitm-5.1,5.cpp): clear the thrown object of the scope of the
  descriptor, then \<open>restart\<close> its owner. \<open>_ITM_transaction::restart\<close> is not among the
  sources and never returns; it is the parameter \<open>restart\<close>, which receives the scope
  and the memory as \<open>tmabort\<close> leaves them.
\<close>

definition tmabort :: "(Scope \<Rightarrow> byte_memory \<Rightarrow> 'r) \<Rightarrow> Scope \<Rightarrow> byte_memory \<Rightarrow> 'r" where
  "tmabort restart scope m = restart (clearThrownObject scope) m"

section \<open>libstm: UndoLog (types.cpp)\<close>

text \<open>
  The barriers of libstm read and write whole aligned words through \<open>uintptr_t*\<close>:
  their memory is a map from the address of a word to its 64 bits. Byte \<open>i\<close> of the word
  at \<open>a\<close> has address \<open>a + i\<close> and, the machine being little-endian, holds the bits
  \<open>8 i .. 8 i + 7\<close>.
\<close>

type_synonym word_memory = "addr \<Rightarrow> 64 word"

text \<open>
  \<open>ByteLoggingUndoLogEntry\<close>: the unions \<open>addr\<close>/\<open>byte_addr\<close>, \<open>val\<close>/\<open>byte_val\<close> and
  \<open>mask\<close>/\<open>byte_mask\<close> of the source, as fields \<open>ul_addr\<close>, \<open>ul_val\<close> and \<open>ul_mask\<close>.
\<close>

record UndoLogEntry =
  ul_addr :: addr
  ul_val :: "64 word"
  ul_mask :: "64 word"

text \<open>\<open>byte_mask[i] = 0x0\<close> on the word \<open>mask\<close>.\<close>

definition clear_byte_mask :: "64 word \<Rightarrow> nat \<Rightarrow> 64 word" where
  "clear_byte_mask mk i = mk AND NOT (push_bit (8 * i) (mask 8))"

text \<open>The body of the loop of \<open>filterSlow\<close> for byte \<open>i\<close>.\<close>

definition filterSlow_byte :: "addr \<Rightarrow> addr \<Rightarrow> UndoLogEntry \<Rightarrow> nat \<Rightarrow> UndoLogEntry" where
  "filterSlow_byte lower upper e i =
     (let a = ul_addr e + i
      in if a \<ge> lower \<and> a < upper then e\<lparr>ul_mask := clear_byte_mask (ul_mask e) i\<rparr> else e)"

text \<open>
  \<open>ByteLoggingUndoLogEntry::filterSlow\<close>: \<open>addr + 1\<close> is the next word, eight bytes on;
  \<open>sizeof(val)\<close> is 8. The result is the returned flag and the entry as the call leaves it.
\<close>

definition filterSlow :: "UndoLogEntry \<Rightarrow> addr \<Rightarrow> addr \<Rightarrow> bool \<times> UndoLogEntry" where
  "filterSlow e lower upper =
     (if ul_addr e \<ge> lower \<and> ul_addr e + 8 < upper then (True, e)
      else
        let e' = foldl (filterSlow_byte lower upper) e [0..<8]
        in (ul_mask e' = 0, e'))"

text \<open>
  Modelled from the spec: \<open>ByteLoggingUndoLogEntry::filter\<close> is defined in UndoLog.hpp,
  which is not among the sources. The spec: entries whose byte range intersects the
  protected range go through the slow-path filter; the others are not filtered.
\<close>

definition UndoLogEntry_filter :: "UndoLogEntry \<Rightarrow> addr \<Rightarrow> addr \<Rightarrow> bool \<times> UndoLogEntry" where
  "UndoLogEntry_filter e lower upper =
     (if ul_addr e + 8 \<le> lower \<or> ul_addr e \<ge> upper then (False, e)
      else filterSlow e lower upper)"

text \<open>
  Modelled from the spec: \<open>ByteLoggingUndoLogEntry::undo\<close> is defined in UndoLog.hpp,
  which is not among the sources. The spec: each entry writes its prior value using the
  mask.
\<close>

definition UndoLogEntry_undo :: "UndoLogEntry \<Rightarrow> word_memory \<Rightarrow> word_memory" where
  "UndoLogEntry_undo e m =
     m(ul_addr e := (m (ul_addr e) AND NOT (ul_mask e)) OR (ul_val e AND ul_mask e))"

text \<open>
  The two loops of \<open>UndoLog::undo\<close>, from \<open>end() - 1\<close> down to \<open>begin()\<close>. Besides the
  memory they thread the list of the entries on which \<open>i->undo()\<close> was called, in the
  order of the calls: the writes performed.
\<close>

fun undo_plain_loop ::
  "nat \<Rightarrow> UndoLogEntry list \<Rightarrow> word_memory \<Rightarrow> UndoLogEntry list \<Rightarrow> word_memory \<times> UndoLogEntry list" where
  "undo_plain_loop 0 es m tr = (m, tr)"
| "undo_plain_loop (Suc i) es m tr =
     undo_plain_loop i es (UndoLogEntry_undo (es ! i) m) (tr @ [es ! i])"

fun undo_filter_loop ::
  "nat \<Rightarrow> UndoLogEntry list \<Rightarrow> addr \<Rightarrow> addr \<Rightarrow> word_memory \<Rightarrow> UndoLogEntry list \<Rightarrow>
   UndoLogEntry list \<times> word_memory \<times> UndoLogEntry list" where
  "undo_filter_loop 0 es lower upper m tr = (es, m, tr)"
| "undo_filter_loop (Suc i) es lower upper m tr =
     (case UndoLogEntry_filter (es ! i) lower upper of
        (True, e') \<Rightarrow> undo_filter_loop i (es[i := e']) lower upper m tr
      | (False, e') \<Rightarrow>
          undo_filter_loop i (es[i := e']) lower upper (UndoLogEntry_undo e' m) (tr @ [e']))"

text \<open>
  \<open>UndoLog::undo(exception, len)\<close> of the build with \<open>STM_ABORT_ON_THROW\<close>. The result
  is the log as the filters leave it, the memory, and the writes performed.
\<close>

definition UndoLog_undo ::
  "UndoLogEntry list \<Rightarrow> addr \<Rightarrow> nat \<Rightarrow> word_memory \<Rightarrow>
   UndoLogEntry list \<times> word_memory \<times> UndoLogEntry list" where
  "UndoLog_undo es exception len m =
     (if exception = NULL then
        (case undo_plain_loop (length es) es m [] of (m', tr) \<Rightarrow> (es, m', tr))
      else
        let upper = exception + len
        in undo_filter_loop (length es) es exception upper m [])"

text \<open>Byte \<open>a\<close> lies in the range \<open>[exception, exception+len)\<close>.\<close>

definition protected_byte :: "addr \<Rightarrow> nat \<Rightarrow> addr \<Rightarrow> bool" where
  "protected_byte exception len a = (exception \<le> a \<and> a < exception + len)"

text \<open>
  The filter as the second loop of \<open>UndoLog::undo\<close> calls it, with
  \<open>upper = exception + len\<close>.
\<close>

definition undo_filter :: "addr \<Rightarrow> nat \<Rightarrow> UndoLogEntry \<Rightarrow> bool \<times> UndoLogEntry" where
  "undo_filter exception len e = UndoLogEntry_filter e exception (exception + len)"

section \<open>libstm: WriteSet (types.cpp)\<close>

text \<open>
  Modelled from the spec: \<open>WriteSetEntry\<close> (address, value, byte mask) and \<open>index_t\<close>
  (version, address, list index) are declared in WriteSet.hpp, which is not among the
  sources; the fields are those that types.cpp and the algorithms use.
\<close>

record WriteSetEntry =
  wse_addr :: addr
  wse_val :: "64 word"
  wse_mask :: "64 word"

record index_t =
  ix_version :: nat
  ix_address :: addr
  ix_index :: nat

text \<open>
  The members of \<open>WriteSet\<close>. The two arrays \<open>index\<close> (of \<open>ilength\<close> slots) and
  \<open>list\<close> (of \<open>capacity\<close> entries, the first \<open>lsize\<close> in use) are maps from the
  position to the element.
\<close>

record WriteSet =
  ws_index :: "nat \<Rightarrow> index_t"
  ws_shift :: nat
  ws_ilength :: nat
  ws_version :: nat
  ws_list :: "nat \<Rightarrow> WriteSetEntry"
  ws_capacity :: nat
  ws_lsize :: nat

text \<open>
  \<open>WriteSet::doubleIndexLength\<close>. The source computes \<open>1 << (32 - shift)\<close> in \<open>int\<close>;
  for an exponent up to 30 that is the power of two below.
\<close>

definition doubleIndexLength :: "WriteSet \<Rightarrow> failure + WriteSet" where
  "doubleIndexLength ws =
     (if ws_shift ws = 0
      then Inl (AssertionFailed ''ERROR: the writeset doesn't support an index this large'')
      else Inr (ws\<lparr>ws_shift := ws_shift ws - 1, ws_ilength := 2 ^ (32 - (ws_shift ws - 1))\<rparr>))"

text \<open>
  Modelled from the spec: the constructor of \<open>index_t\<close> is in WriteSet.hpp, which is not
  among the sources. An entry whose version is not the current one is absent, and
  \<open>reset_internal\<close> zeroes the index and restarts the version at 1: a fresh slot has
  version 0.
\<close>

definition fresh_slot :: index_t where
  "fresh_slot = \<lparr>ix_version = 0, ix_address = NULL, ix_index = 0\<rparr>"

text \<open>
  The search for the next available slot in \<open>rebuild\<close>:
  \<open>while (index[h].version == version) h = (h + 1) % ilength\<close>. On a full index it does
  not end, which is the value \<open>None\<close>.
\<close>

partial_function (option) next_available :: "(nat \<Rightarrow> index_t) \<Rightarrow> nat \<Rightarrow> nat \<Rightarrow> nat \<Rightarrow> nat option" where
  "next_available idx v n h =
     (if ix_version (idx h) = v then next_available idx v n ((h + 1) mod n) else Some h)"

text \<open>
  The \<open>for\<close> loop of \<open>rebuild\<close> from position \<open>i\<close>. \<open>WriteSet::hash\<close> is defined in
  WriteSet.hpp, which is not among the sources; it is the parameter \<open>hash\<close>, a function of
  the member \<open>shift\<close> and the address.
\<close>

function rebuild_loop :: "(nat \<Rightarrow> addr \<Rightarrow> nat) \<Rightarrow> nat \<Rightarrow> WriteSet \<Rightarrow> WriteSet option" where
  "rebuild_loop hash i ws =
     (if i < ws_lsize ws then
        (case next_available (ws_index ws) (ws_version ws) (ws_ilength ws)
                (hash (ws_shift ws) (wse_addr (ws_list ws i))) of
           None \<Rightarrow> None
         | Some h \<Rightarrow>
             rebuild_loop hash (i + 1)
               (ws\<lparr>ws_index := (ws_index ws)
                  (h := \<lparr>ix_version = ws_version ws,
                         ix_address = wse_addr (ws_list ws i),
                         ix_index = i\<rparr>)\<rparr>))
      else Some ws)"
  by pat_completeness auto
termination
  by (relation "measure (\<lambda>(hash, i, ws). ws_lsize ws - i)") auto

text \<open>\<open>WriteSet::rebuild\<close>; \<open>None\<close> when a search for a slot does not end.\<close>

definition rebuild :: "(nat \<Rightarrow> addr \<Rightarrow> nat) \<Rightarrow> WriteSet \<Rightarrow> (failure + WriteSet) option" where
  "rebuild hash ws =
     (if ws_version ws = 0
      then Some (Inl (AssertionFailed ''ERROR: the version should *never* be 0''))
      else
        case doubleIndexLength ws of
          Inl f \<Rightarrow> Some (Inl f)
        | Inr ws1 \<Rightarrow>
            (case rebuild_loop hash 0 (ws1\<lparr>ws_index := (\<lambda>h. fresh_slot)\<rparr>) of
               None \<Rightarrow> None
             | Some ws2 \<Rightarrow> Some (Inr ws2)))"

text \<open>
  \<open>WriteSet::resize\<close>. The new block comes from \<open>malloc\<close> with unknown contents
  \<open>fresh\<close>; \<open>memcpy\<close> copies the \<open>lsize\<close> entries in use. The source does not
  test the result of \<open>malloc\<close>: the allocation is taken to succeed, and the capacity,
  a \<open>size_t\<close>, to stay below \<open>2^63\<close>.
\<close>

definition resize :: "(nat \<Rightarrow> WriteSetEntry) \<Rightarrow> WriteSet \<Rightarrow> WriteSet" where
  "resize fresh ws =
     ws\<lparr>ws_capacity := ws_capacity ws * 2,
        ws_list := (\<lambda>i. if i < ws_lsize ws then ws_list ws i else fresh i)\<rparr>"

text \<open>\<open>WriteSet::reset_internal\<close>.\<close>

definition reset_internal :: "WriteSet \<Rightarrow> WriteSet" where
  "reset_internal ws = ws\<lparr>ws_index := (\<lambda>h. fresh_slot), ws_version := 1\<rparr>"

subsection \<open>What the index holds after a rebuild\<close>

text \<open>
  What \<open>rebuild\<close> stores for list position \<open>i\<close>: the current version, the address of the
  entry and the position.
\<close>

definition slot_of :: "WriteSet \<Rightarrow> nat \<Rightarrow> index_t" where
  "slot_of ws i = \<lparr>ix_version = ws_version ws, ix_address = wse_addr (ws_list ws i), ix_index = i\<rparr>"

text \<open>The \<open>k\<close>-th slot of linear probing from \<open>hash(list[i].addr)\<close>.\<close>

definition probe_slot :: "(nat \<Rightarrow> addr \<Rightarrow> nat) \<Rightarrow> WriteSet \<Rightarrow> nat \<Rightarrow> nat \<Rightarrow> nat" where
  "probe_slot hash ws i k = (hash (ws_shift ws) (wse_addr (ws_list ws i)) + k) mod ws_ilength ws"

text \<open>
  The first \<open>n\<close> list positions are indexed: probing from the hash of the address of
  position \<open>i\<close> passes only slots that hold earlier positions and arrives at the slot
  that holds \<open>i\<close>.
\<close>

definition indexed_upto :: "(nat \<Rightarrow> addr \<Rightarrow> nat) \<Rightarrow> WriteSet \<Rightarrow> nat \<Rightarrow> bool" where
  "indexed_upto hash ws n =
     (\<forall>i<n. \<exists>k<ws_ilength ws.
        ws_index ws (probe_slot hash ws i k) = slot_of ws i \<and>
        (\<forall>j<k. \<exists>i'<i. ws_index ws (probe_slot hash ws i j) = slot_of ws i'))"

text \<open>The slots in use: those of the current version.\<close>

definition occupied :: "WriteSet \<Rightarrow> nat set" where
  "occupied ws = {h. ix_version (ws_index ws h) = ws_version ws}"

text \<open>The invariant of the loop of \<open>rebuild\<close> before iteration \<open>n\<close>.\<close>

definition rebuild_inv :: "(nat \<Rightarrow> addr \<Rightarrow> nat) \<Rightarrow> WriteSet \<Rightarrow> nat \<Rightarrow> bool" where
  "rebuild_inv hash ws n =
     (indexed_upto hash ws n \<and> occupied ws \<subseteq> {..<ws_ilength ws} \<and> card (occupied ws) = n \<and>
      (\<forall>h\<in>occupied ws. \<exists>i<n. ws_index ws h = slot_of ws i))"

text \<open>A hash with collisions, and a write set of two entries at 8 and 16 whose index has two slots.\<close>

definition example_hash :: "nat \<Rightarrow> addr \<Rightarrow> nat" where
  "example_hash s a = (a div 64) mod 2 ^ (32 - s)"

definition example_ws :: WriteSet where
  "example_ws = \<lparr>ws_index = (\<lambda>h. fresh_slot), ws_shift = 31, ws_ilength = 2, ws_version = 1,
      ws_list = (\<lambda>i. \<lparr>wse_addr = 8 * (i + 1), wse_val = 7, wse_mask = - 1\<rparr>),
      ws_capacity = 4, ws_lsize = 2\<rparr>"

section \<open>libstm: the descriptor and the metadata\<close>

text \<open>
  Modelled from the spec: \<open>bytelock_t\<close>, \<open>orec_t\<close>, \<open>nanorec_t\<close> and \<open>TxThread\<close> are
  declared in metadata.hpp and txthread.hpp, which are not among the sources. The fields
  are those the algorithms use. A bytelock has the owner (a thread id, 0 when free), one
  reader byte per thread, the version counter and one recorded version per reader; the
  width of the counters is not visible in the sources and is taken as 32 bits. An orec has
  the word \<open>v.all\<close> and the saved word \<open>p\<close>; the lock flag of \<open>v.fields\<close> is the most
  significant bit of the word.
\<close>

record bytelock_t =
  owner :: nat
  reader :: "nat \<Rightarrow> 8 word"
  version :: "32 word"
  reader_version :: "nat \<Rightarrow> 32 word"

record orec_t =
  o_v :: "64 word"
  o_p :: "64 word"

definition lock_bit :: "64 word \<Rightarrow> bool" where
  "lock_bit w = bit w 63"

record nanorec_t =
  nr_o :: nat
  nr_v :: "64 word"

text \<open>
  The dispatch pointers \<open>tmread\<close>, \<open>tmwrite\<close> and \<open>tmcommit\<close> of a descriptor point to
  the read-only or to the read-write variant of the barrier of the running algorithm.
\<close>

datatype variant = RO | RW

text \<open>
  The descriptor. Lists of pointers to bytelocks and orecs hold the positions of the locks
  in their tables. The thread id is at least 1; the reader slot of the thread is
  \<open>id - 1\<close>.
\<close>

record TxThread =
  tx_id :: nat
  r_bytelocks :: "nat list"
  w_bytelocks :: "nat list"
  undo_log :: "UndoLogEntry list"
  nanorecs :: "nanorec_t list"
  writes :: WriteSet
  locks :: "nat list"
  my_lock :: "64 word"
  tmread :: variant
  tmwrite :: variant
  tmcommit :: variant

text \<open>
  What a barrier works on: the descriptor of the calling thread, the application memory
  and the two global tables. A call is modelled running alone: no other thread changes
  the tables or the memory during the call, so a wait for something only another thread
  can change runs into its timeout.
\<close>

record stm_state =
  st_tx :: TxThread
  st_mem :: word_memory
  st_bytelocks :: "nat \<Rightarrow> bytelock_t"
  st_orecs :: "nat \<Rightarrow> orec_t"

text \<open>
  A barrier returns a value, or ends in \<open>tx->abort()\<close>, which does not return; the state
  is the one at the return or at the call of \<open>abort\<close>.
\<close>

datatype 'a outcome = Returns 'a stm_state | Aborts stm_state

text \<open>
  Modelled from the spec: \<open>OnFirstWrite\<close>, \<open>OnReadWriteCommit\<close> and the other helpers of
  profiling.hpp are not among the sources. On the first write the dispatch pointers are
  switched to the read-write variants; a read-write commit returns them to the read-only
  variants.
\<close>

definition OnFirstWrite :: "stm_state \<Rightarrow> stm_state" where
  "OnFirstWrite s = s\<lparr>st_tx := (st_tx s)\<lparr>tmread := RW, tmwrite := RW, tmcommit := RW\<rparr>\<rparr>"

definition OnReadWriteCommit :: "stm_state \<Rightarrow> stm_state" where
  "OnReadWriteCommit s = s\<lparr>st_tx := (st_tx s)\<lparr>tmread := RO, tmwrite := RO, tmcommit := RO\<rparr>\<rparr>"

section \<open>libstm: ByteEager (byteeager.cpp)\<close>

definition READ_TIMEOUT :: nat where
  "READ_TIMEOUT = 32"

definition ACQUIRE_TIMEOUT :: nat where
  "ACQUIRE_TIMEOUT = 128"

definition DRAIN_TIMEOUT :: nat where
  "DRAIN_TIMEOUT = 256"

text \<open>An assignment through the pointer \<open>lock\<close>, which is entry \<open>l\<close> of the table.\<close>

definition upd_lock :: "nat \<Rightarrow> (bytelock_t \<Rightarrow> bytelock_t) \<Rightarrow> stm_state \<Rightarrow> stm_state" where
  "upd_lock l f s = s\<lparr>st_bytelocks := (st_bytelocks s)(l := f (st_bytelocks s l))\<rparr>"

text \<open>
  \<open>while (lock->owner != 0) if (++tries > READ_TIMEOUT) tx->abort();\<close> The result is
  \<open>None\<close> for the abort, or the counter when the loop is left.
\<close>

function read_spin :: "bytelock_t \<Rightarrow> nat \<Rightarrow> nat option" where
  "read_spin lock tries =
     (if owner lock \<noteq> 0
      then (if tries + 1 > READ_TIMEOUT then None else read_spin lock (tries + 1))
      else Some tries)"
  by pat_completeness auto
termination
  by (relation "measure (\<lambda>(lock, tries). READ_TIMEOUT + 1 - tries)") auto

lemma read_spin_Some: "read_spin lock tries = Some tries' \<Longrightarrow> owner lock = 0"
  by (induction lock tries rule: read_spin.induct) (auto split: if_splits)

declare read_spin.simps [simp del]

text \<open>
  The \<open>while (true)\<close> loop of \<open>read_ro\<close> and \<open>read_rw\<close> (the two functions have the
  same text from "now try to get a read lock" on).
\<close>

function read_lock_loop :: "stm_state \<Rightarrow> nat \<Rightarrow> addr \<Rightarrow> nat \<Rightarrow> (64 word) outcome" where
  "read_lock_loop s l a tries =
     (let me = tx_id (st_tx s) - 1;
          s1 = upd_lock l (\<lambda>b. b\<lparr>reader := (reader b)(me := 1)\<rparr>) s;
          lock = st_bytelocks s1 l
      in if owner lock = 0 then
           (if reader_version lock me = 0 then
              let s2 = upd_lock l (\<lambda>b. b\<lparr>reader_version := (reader_version b)(me := version b)\<rparr>) s1
              in Returns (st_mem s2 a) s2
            else if reader_version lock me \<noteq> version lock then Aborts s1
            else Returns (st_mem s1 a) s1)
         else
           let s2 = upd_lock l (\<lambda>b. b\<lparr>reader := (reader b)(me := 0)\<rparr>) s1
           in case read_spin (st_bytelocks s2 l) tries of
                None \<Rightarrow> Aborts s2
              | Some tries' \<Rightarrow> read_lock_loop s2 l a tries')"
  by pat_completeness auto
termination
proof (relation "{}")
  show "wf {}" by simp
next
  fix s :: stm_state and l :: nat and a :: addr and tries x xa xb xc x2
  assume xa: "xa = upd_lock l (\<lambda>b. b\<lparr>reader := (reader b)(x := 1)\<rparr>) s"
    and xb: "xb = st_bytelocks xa l"
    and held: "owner xb \<noteq> 0"
    and xc: "xc = upd_lock l (\<lambda>b. b\<lparr>reader := (reader b)(x := 0)\<rparr>) xa"
    and spin: "read_spin (st_bytelocks xc l) tries = Some x2"
  have "owner (st_bytelocks xc l) = owner xb"
    by (simp add: xa xb xc upd_lock_def)
  moreover have "owner (st_bytelocks xc l) = 0"
    using spin by (rule read_spin_Some)
  ultimately have False using held by simp
  then show "((xc, l, a, x2), s, l, a, tries) \<in> {}" by simp
qed

declare read_lock_loop.simps [simp del]

text \<open>\<open>ByteEager::read_ro\<close>; \<open>get_bytelock\<close> (metadata.hpp) maps an address to its lock.\<close>

definition ByteEager_read_ro :: "(addr \<Rightarrow> nat) \<Rightarrow> stm_state \<Rightarrow> addr \<Rightarrow> (64 word) outcome" where
  "ByteEager_read_ro get_bytelock s a =
     (let l = get_bytelock a; me = tx_id (st_tx s) - 1
      in if reader (st_bytelocks s l) me = 1 then Returns (st_mem s a) s
         else
           let s1 = (if reader_version (st_bytelocks s l) me = 0
                     then s\<lparr>st_tx := (st_tx s)\<lparr>r_bytelocks := r_bytelocks (st_tx s) @ [l]\<rparr>\<rparr>
                     else s)
           in read_lock_loop s1 l a 0)"

text \<open>\<open>ByteEager::read_rw\<close>.\<close>

definition ByteEager_read_rw :: "(addr \<Rightarrow> nat) \<Rightarrow> stm_state \<Rightarrow> addr \<Rightarrow> (64 word) outcome" where
  "ByteEager_read_rw get_bytelock s a =
     (let l = get_bytelock a; me = tx_id (st_tx s) - 1
      in if owner (st_bytelocks s l) = tx_id (st_tx s) then Returns (st_mem s a) s
         else if reader (st_bytelocks s l) me = 1 then Returns (st_mem s a) s
         else
           let s1 = (if reader_version (st_bytelocks s l) me = 0
                     then s\<lparr>st_tx := (st_tx s)\<lparr>r_bytelocks := r_bytelocks (st_tx s) @ [l]\<rparr>\<rparr>
                     else s)
           in read_lock_loop s1 l a 0)"

text \<open>
  \<open>while (!bcas32(&(lock->owner), 0u, tx->id)) if (++tries > ACQUIRE_TIMEOUT)
  tx->abort();\<close> The compare-and-swap succeeds when the owner is 0 and stores the id;
  \<open>None\<close> is the abort.
\<close>

function acquire_spin :: "bytelock_t \<Rightarrow> nat \<Rightarrow> nat \<Rightarrow> bytelock_t option" where
  "acquire_spin lock my_id tries =
     (if owner lock = 0 then Some (lock\<lparr>owner := my_id\<rparr>)
      else if tries + 1 > ACQUIRE_TIMEOUT then None
      else acquire_spin lock my_id (tries + 1))"
  by pat_completeness auto
termination
  by (relation "measure (\<lambda>(lock, my_id, tries). ACQUIRE_TIMEOUT + 1 - tries)") auto

declare acquire_spin.simps [simp del]

text \<open>
  \<open>lock_alias[i]\<close>: the four reader bytes \<open>4 i .. 4 i + 3\<close> read as one \<open>uint32_t\<close>,
  which is 0 exactly when the four bytes are.
\<close>

definition lock_alias :: "bytelock_t \<Rightarrow> nat \<Rightarrow> 8 word \<times> 8 word \<times> 8 word \<times> 8 word" where
  "lock_alias lock i =
     (reader lock (4 * i), reader lock (4 * i + 1), reader lock (4 * i + 2), reader lock (4 * i + 3))"

text \<open>
  \<open>while (lock_alias[i] != 0) if (++tries > DRAIN_TIMEOUT) tx->abort();\<close> The result
  is \<open>False\<close> for the abort.
\<close>

function drain_spin :: "bytelock_t \<Rightarrow> nat \<Rightarrow> nat \<Rightarrow> bool" where
  "drain_spin lock i tries =
     (if lock_alias lock i \<noteq> (0, 0, 0, 0)
      then (if tries + 1 > DRAIN_TIMEOUT then False else drain_spin lock i (tries + 1))
      else True)"
  by pat_completeness auto
termination
  by (relation "measure (\<lambda>(lock, i, tries). DRAIN_TIMEOUT + 1 - tries)") auto

declare drain_spin.simps [simp del]

text \<open>\<open>for (int i = 0; i < 16; ++i) { tries = 0; ... }\<close>\<close>

definition drain_readers :: "bytelock_t \<Rightarrow> bool" where
  "drain_readers lock = list_all (\<lambda>i. drain_spin lock i 0) [0..<16]"

text \<open>
  \<open>STM_UNDO_LOG_ENTRY(addr, *addr, mask)\<close> in \<open>write_reserve\<close>, which has no mask
  parameter: the entry of the word-logging build, address and prior value; as an
  \<open>UndoLogEntry\<close> it covers the whole word.
\<close>

definition word_undo_entry :: "addr \<Rightarrow> 64 word \<Rightarrow> UndoLogEntry" where
  "word_undo_entry a v = \<lparr>ul_addr = a, ul_val = v, ul_mask = - 1\<rparr>"

text \<open>\<open>ByteEager::write_reserve\<close>.\<close>

definition ByteEager_write_reserve :: "(addr \<Rightarrow> nat) \<Rightarrow> stm_state \<Rightarrow> addr \<Rightarrow> unit outcome" where
  "ByteEager_write_reserve get_bytelock s a =
     (let l = get_bytelock a; t = st_tx s; me = tx_id t - 1
      in if owner (st_bytelocks s l) = tx_id t
         then Returns () (s\<lparr>st_tx := t\<lparr>undo_log := undo_log t @ [word_undo_entry a (st_mem s a)]\<rparr>\<rparr>)
         else
           case acquire_spin (st_bytelocks s l) (tx_id t) 0 of
             None \<Rightarrow> Aborts s
           | Some lock1 \<Rightarrow>
               let s1 = s\<lparr>st_bytelocks := (st_bytelocks s)(l := lock1),
                           st_tx := t\<lparr>w_bytelocks := w_bytelocks t @ [l]\<rparr>\<rparr>;
                   s2 = upd_lock l (\<lambda>b. b\<lparr>reader := (reader b)(me := 0)\<rparr>) s1;
                   lock2 = st_bytelocks s2 l
               in if reader_version lock2 me \<noteq> 0 \<and> reader_version lock2 me \<noteq> version lock2
                  then Aborts s2
                  else if \<not> drain_readers lock2 then Aborts s2
                  else
                    let s3 = upd_lock l (\<lambda>b. b\<lparr>version := version b + 1\<rparr>) s2;
                        s4 = s3\<lparr>st_tx := (st_tx s3)\<lparr>undo_log :=
                                undo_log (st_tx s3) @ [word_undo_entry a (st_mem s3 a)]\<rparr>\<rparr>
                    in if length (w_bytelocks (st_tx s4)) = 1
                       then Returns () (OnFirstWrite s4)
                       else Returns () s4)"

text \<open>\<open>ByteEager::irrevoc\<close>: the result and the state it leaves.\<close>

definition ByteEager_irrevoc :: "stm_state \<Rightarrow> bool \<times> stm_state" where
  "ByteEager_irrevoc s = (False, s)"

section \<open>libstm: Nano (nano.cpp)\<close>

text \<open>
  \<open>bcasptr(&o->v.all, old, new)\<close> on the current word: the flag and the word it leaves.
\<close>

definition bcasptr :: "64 word \<Rightarrow> 64 word \<Rightarrow> 64 word \<Rightarrow> bool \<times> 64 word" where
  "bcasptr cur old new = (if cur = old then (True, new) else (False, cur))"

text \<open>
  Modelled from the spec: the iterators, \<open>writeback\<close> and \<open>reset\<close> of \<open>WriteSet\<close> are
  in WriteSet.hpp, which is not among the sources. The entries are the first \<open>lsize\<close>
  elements of the list, in insertion order; \<open>writeback\<close> stores each value into its
  address in list order, honouring the mask; \<open>reset\<close> empties the list and increments the
  version, and zeroes the index and restarts at 1 when the counter wraps.
\<close>

definition WriteSet_entries :: "WriteSet \<Rightarrow> WriteSetEntry list" where
  "WriteSet_entries ws = map (ws_list ws) [0..<ws_lsize ws]"

definition WriteSetEntry_writeback :: "word_memory \<Rightarrow> WriteSetEntry \<Rightarrow> word_memory" where
  "WriteSetEntry_writeback m e =
     m(wse_addr e := (m (wse_addr e) AND NOT (wse_mask e)) OR (wse_val e AND wse_mask e))"

definition WriteSet_writeback :: "WriteSet \<Rightarrow> word_memory \<Rightarrow> word_memory" where
  "WriteSet_writeback ws m = foldl WriteSetEntry_writeback m (WriteSet_entries ws)"

definition WriteSet_reset :: "WriteSet \<Rightarrow> WriteSet" where
  "WriteSet_reset ws =
     (let ws1 = ws\<lparr>ws_lsize := 0, ws_version := (ws_version ws + 1) mod 2 ^ 64\<rparr>
      in if ws_version ws1 \<noteq> 0 then ws1 else reset_internal ws1)"

text \<open>
  The first loop of \<open>Nano::commit_rw\<close> over the entries of the write set;
  \<open>get_nanorec\<close> (metadata.hpp) maps an address to its orec. \<open>Inl\<close> is the state at
  \<open>tx->abort()\<close>.
\<close>

fun acquire_locks :: "(addr \<Rightarrow> nat) \<Rightarrow> WriteSetEntry list \<Rightarrow> stm_state \<Rightarrow> stm_state + stm_state" where
  "acquire_locks get_nanorec [] s = Inr s"
| "acquire_locks get_nanorec (e # es) s =
     (let n = get_nanorec (wse_addr e);
          ivt = o_v (st_orecs s n)
      in if ivt \<noteq> my_lock (st_tx s) then
           (if \<not> lock_bit ivt then
              (case bcasptr (o_v (st_orecs s n)) ivt (my_lock (st_tx s)) of
                 (False, w) \<Rightarrow> Inl s
               | (True, w) \<Rightarrow>
                   acquire_locks get_nanorec es
                     (s\<lparr>st_orecs := (st_orecs s)(n := \<lparr>o_v = w, o_p = ivt\<rparr>),
                        st_tx := (st_tx s)\<lparr>locks := locks (st_tx s) @ [n]\<rparr>\<rparr>))
            else Inl s)
         else acquire_locks get_nanorec es s)"

text \<open>The test of the validation loop: the entry makes the transaction abort.\<close>

definition nanorec_fails :: "stm_state \<Rightarrow> nanorec_t \<Rightarrow> bool" where
  "nanorec_fails s i =
     (let ivt = o_v (st_orecs s (nr_o i))
      in ivt \<noteq> nr_v i \<and> (ivt \<noteq> my_lock (st_tx s) \<or> nr_v i \<noteq> o_p (st_orecs s (nr_o i))))"

text \<open>The release loop: \<open>(*i)->v.all = (*i)->p + 1\<close>.\<close>

definition release_lock :: "(nat \<Rightarrow> orec_t) \<Rightarrow> nat \<Rightarrow> (nat \<Rightarrow> orec_t)" where
  "release_lock orecs n = orecs(n := (orecs n)\<lparr>o_v := o_p (orecs n) + 1\<rparr>)"

text \<open>\<open>Nano::commit_rw\<close>.\<close>

definition Nano_commit_rw :: "(addr \<Rightarrow> nat) \<Rightarrow> stm_state \<Rightarrow> unit outcome" where
  "Nano_commit_rw get_nanorec s =
     (case acquire_locks get_nanorec (WriteSet_entries (writes (st_tx s))) s of
        Inl sa \<Rightarrow> Aborts sa
      | Inr s1 \<Rightarrow>
          if list_ex (nanorec_fails s1) (nanorecs (st_tx s1)) then Aborts s1
          else
            let s2 = s1\<lparr>st_mem := WriteSet_writeback (writes (st_tx s1)) (st_mem s1)\<rparr>;
                s3 = s2\<lparr>st_orecs := foldl release_lock (st_orecs s2) (locks (st_tx s2))\<rparr>;
                s4 = s3\<lparr>st_tx := (st_tx s3)\<lparr>nanorecs := [],
                                             writes := WriteSet_reset (writes (st_tx s3)),
                                             locks := []\<rparr>\<rparr>
            in Returns () (OnReadWriteCommit s4))"

text \<open>\<open>Nano::irrevoc\<close>.\<close>

definition Nano_irrevoc :: "stm_state \<Rightarrow> bool \<times> stm_state" where
  "Nano_irrevoc s = (False, s)"

section \<open>libstm: the table of registered algorithms\<close>

text \<open>
  \<open>initTM<ByteEager>\<close> and \<open>initTM<Nano>\<close> fill the entry of their algorithm in
  \<open>stms\<close>; of an entry, the name, the \<open>irrevoc\<close> pointer and the privatization flag.
\<close>

datatype ALGS = ByteEager | Nano

record alg_t =
  alg_name :: string
  alg_irrevoc :: "stm_state \<Rightarrow> bool \<times> stm_state"
  alg_privatization_safe :: bool

definition initTM_ByteEager :: alg_t where
  "initTM_ByteEager =
     \<lparr>alg_name = ''ByteEager'', alg_irrevoc = ByteEager_irrevoc, alg_privatization_safe = True\<rparr>"

definition initTM_Nano :: alg_t where
  "initTM_Nano = \<lparr>alg_name = ''Nano'', alg_irrevoc = Nano_irrevoc, alg_privatization_safe = False\<rparr>"

fun stms :: "ALGS \<Rightarrow> alg_t" where
  "stms ByteEager = initTM_ByteEager"
| "stms Nano = initTM_Nano"

section \<open>Example states\<close>

text \<open>
  A map from addresses to four locks, a free lock, and thread 1 in read-only mode over a
  memory that holds 42 everywhere, with every lock free.
\<close>

definition example_get_bytelock :: "addr \<Rightarrow> nat" where
  "example_get_bytelock a = (a div 8) mod 4"

definition free_lock :: bytelock_t where
  "free_lock = \<lparr>owner = 0, reader = (\<lambda>j. 0), version = 1, reader_version = (\<lambda>j. 0)\<rparr>"

definition example_tx :: TxThread where
  "example_tx = \<lparr>tx_id = 1, r_bytelocks = [], w_bytelocks = [], undo_log = [], nanorecs = [],
      writes = example_ws, locks = [], my_lock = push_bit 63 1 OR 1,
      tmread = RO, tmwrite = RO, tmcommit = RO\<rparr>"

definition example_state :: stm_state where
  "example_state = \<lparr>st_tx = example_tx, st_mem = (\<lambda>a. 42), st_bytelocks = (\<lambda>l. free_lock),
      st_orecs = (\<lambda>n. \<lparr>o_v = 0, o_p = 0\<rparr>)\<rparr>"

text \<open>
  A map from addresses to four orecs; thread 1 about to commit the two writes of the
  example write set after reading through orecs 1 and 3 at version 0; and the same with a
  read of orec 3 logged at version 5, which the orec does not have.
\<close>

definition example_get_nanorec :: "addr \<Rightarrow> nat" where
  "example_get_nanorec a = (a div 8) mod 4"

definition nano_commit_state :: stm_state where
  "nano_commit_state = example_state\<lparr>st_tx := example_tx\<lparr>tmread := RW, tmwrite := RW, tmcommit := RW,
      nanorecs := [\<lparr>nr_o = 1, nr_v = 0\<rparr>, \<lparr>nr_o = 3, nr_v = 0\<rparr>]\<rparr>\<rparr>"

definition nano_stale_state :: stm_state where
  "nano_stale_state = example_state\<lparr>st_tx := example_tx\<lparr>tmread := RW, tmwrite := RW, tmcommit := RW,
      nanorecs := [\<lparr>nr_o = 3, nr_v = 5\<rparr>]\<rparr>\<rparr>"

section \<open>libstm: ByteEager, the other barriers and the steps of a thread\<close>

text \<open>
  The part that \<open>write_ro\<close> and \<open>write_rw\<close> share, from the compare-and-swap loop to
  the increment of the version; \<open>Inl\<close> is the state at \<open>tx->abort()\<close>.
\<close>

definition write_acquire :: "stm_state \<Rightarrow> nat \<Rightarrow> stm_state + stm_state" where
  "write_acquire s l =
     (let t = st_tx s; me = tx_id t - 1
      in case acquire_spin (st_bytelocks s l) (tx_id t) 0 of
           None \<Rightarrow> Inl s
         | Some lock1 \<Rightarrow>
             let s1 = s\<lparr>st_bytelocks := (st_bytelocks s)(l := lock1),
                         st_tx := t\<lparr>w_bytelocks := w_bytelocks t @ [l]\<rparr>\<rparr>;
                 s2 = upd_lock l (\<lambda>b. b\<lparr>reader := (reader b)(me := 0)\<rparr>) s1;
                 lock2 = st_bytelocks s2 l
             in if reader_version lock2 me \<noteq> 0 \<and> reader_version lock2 me \<noteq> version lock2
                then Inl s2
                else if \<not> drain_readers lock2 then Inl s2
                else Inr (upd_lock l (\<lambda>b. b\<lparr>version := version b + 1\<rparr>) s2))"

text \<open>
  Adding to the undo log and writing in place:
  \<open>tx->undo_log.insert(UndoLogEntry(STM_UNDO_LOG_ENTRY(addr, *addr, mask)));
  STM_DO_MASKED_WRITE(addr, val, mask);\<close> The two macros are not among the sources;
  the write replaces the bytes that the mask selects, and the word-logging build is the
  case of the full mask.
\<close>

definition log_and_write :: "stm_state \<Rightarrow> addr \<Rightarrow> 64 word \<Rightarrow> 64 word \<Rightarrow> stm_state" where
  "log_and_write s a v mk =
     s\<lparr>st_tx := (st_tx s)\<lparr>undo_log := undo_log (st_tx s) @
                     [\<lparr>ul_addr = a, ul_val = st_mem s a, ul_mask = mk\<rparr>]\<rparr>,
        st_mem := (st_mem s)(a := (st_mem s a AND NOT mk) OR (v AND mk))\<rparr>"

text \<open>\<open>ByteEager::write_ro\<close> and \<open>ByteEager::write_rw\<close>.\<close>

definition ByteEager_write_ro ::
  "(addr \<Rightarrow> nat) \<Rightarrow> stm_state \<Rightarrow> addr \<Rightarrow> 64 word \<Rightarrow> 64 word \<Rightarrow> unit outcome" where
  "ByteEager_write_ro get_bytelock s a v mk =
     (case write_acquire s (get_bytelock a) of
        Inl sa \<Rightarrow> Aborts sa
      | Inr s1 \<Rightarrow> Returns () (OnFirstWrite (log_and_write s1 a v mk)))"

definition ByteEager_write_rw ::
  "(addr \<Rightarrow> nat) \<Rightarrow> stm_state \<Rightarrow> addr \<Rightarrow> 64 word \<Rightarrow> 64 word \<Rightarrow> unit outcome" where
  "ByteEager_write_rw get_bytelock s a v mk =
     (if owner (st_bytelocks s (get_bytelock a)) = tx_id (st_tx s)
      then Returns () (log_and_write s a v mk)
      else
        case write_acquire s (get_bytelock a) of
          Inl sa \<Rightarrow> Aborts sa
        | Inr s1 \<Rightarrow> Returns () (log_and_write s1 a v mk))"

text \<open>\<open>ByteEager::read_reserve\<close>: the text of \<open>read_rw\<close> without the value.\<close>

definition ByteEager_read_reserve :: "(addr \<Rightarrow> nat) \<Rightarrow> stm_state \<Rightarrow> addr \<Rightarrow> unit outcome" where
  "ByteEager_read_reserve get_bytelock s a =
     (case ByteEager_read_rw get_bytelock s a of
        Returns v s' \<Rightarrow> Returns () s'
      | Aborts s' \<Rightarrow> Aborts s')"

text \<open>\<open>ByteEager::release\<close>.\<close>

definition ByteEager_release :: "(addr \<Rightarrow> nat) \<Rightarrow> stm_state \<Rightarrow> addr \<Rightarrow> stm_state" where
  "ByteEager_release get_bytelock s a =
     (let l = get_bytelock a
      in if owner (st_bytelocks s l) \<noteq> tx_id (st_tx s)
         then upd_lock l (\<lambda>b. b\<lparr>reader := (reader b)(tx_id (st_tx s) - 1 := 0)\<rparr>) s
         else s)"

text \<open>The two release loops of commit and rollback.\<close>

definition release_write_locks :: "stm_state \<Rightarrow> stm_state" where
  "release_write_locks s =
     foldl (\<lambda>s l. upd_lock l (\<lambda>b. b\<lparr>owner := 0\<rparr>) s) s (w_bytelocks (st_tx s))"

definition release_read_locks :: "stm_state \<Rightarrow> stm_state" where
  "release_read_locks s =
     (let me = tx_id (st_tx s) - 1
      in foldl (\<lambda>s' l. upd_lock l (\<lambda>b. b\<lparr>reader := (reader b)(me := 0),
                                        reader_version := (reader_version b)(me := 0)\<rparr>) s')
           s (r_bytelocks (st_tx s)))"

text \<open>
  \<open>ByteEager::commit_ro\<close> and \<open>ByteEager::commit_rw\<close>. \<open>OnReadOnlyCommit\<close>
  (profiling.hpp) is not among the sources; it leaves the dispatch pointers, which are
  the read-only variants, as they are.
\<close>

definition ByteEager_commit_ro :: "stm_state \<Rightarrow> stm_state" where
  "ByteEager_commit_ro s =
     (let s1 = release_read_locks s
      in s1\<lparr>st_tx := (st_tx s1)\<lparr>r_bytelocks := []\<rparr>\<rparr>)"

definition ByteEager_commit_rw :: "stm_state \<Rightarrow> stm_state" where
  "ByteEager_commit_rw s =
     (let s1 = release_read_locks (release_write_locks s)
      in OnReadWriteCommit
           (s1\<lparr>st_tx := (st_tx s1)\<lparr>r_bytelocks := [], w_bytelocks := [], undo_log := []\<rparr>\<rparr>))"

text \<open>
  \<open>ByteEager::rollback\<close>: undo around the exception object, release, reset.
  \<open>PreRollback\<close>, \<open>exp_backoff\<close> and \<open>PostRollback\<close> are not among the sources: the
  backoff changes nothing of the state, and \<open>PostRollback\<close> returns the dispatch
  pointers to the read-only variants.
\<close>

definition ByteEager_rollback :: "stm_state \<Rightarrow> addr \<Rightarrow> nat \<Rightarrow> stm_state" where
  "ByteEager_rollback s except len =
     (let s0 = (case UndoLog_undo (undo_log (st_tx s)) except len (st_mem s) of
                  (es, m, tr) \<Rightarrow> s\<lparr>st_mem := m, st_tx := (st_tx s)\<lparr>undo_log := es\<rparr>\<rparr>);
          s1 = release_read_locks (release_write_locks s0)
      in OnReadWriteCommit
           (s1\<lparr>st_tx := (st_tx s1)\<lparr>r_bytelocks := [], w_bytelocks := [], undo_log := []\<rparr>\<rparr>))"

text \<open>
  One step of the thread: a barrier called through the dispatch pointers (or a reserve,
  release, commit or rollback), followed by the rollback when the barrier aborts; or a
  step of other threads, which change the memory and the locks but neither the descriptor
  of this thread nor which locks carry its id as owner.
\<close>

definition after :: "'a outcome \<Rightarrow> addr \<Rightarrow> nat \<Rightarrow> stm_state" where
  "after r except len =
     (case r of Returns v s' \<Rightarrow> s' | Aborts sa \<Rightarrow> ByteEager_rollback sa except len)"

inductive ByteEager_step :: "(addr \<Rightarrow> nat) \<Rightarrow> stm_state \<Rightarrow> stm_state \<Rightarrow> bool"
  for get_bytelock :: "addr \<Rightarrow> nat" where
  step_read: "ByteEager_step get_bytelock s
           (after (if tmread (st_tx s) = RO then ByteEager_read_ro get_bytelock s a
                   else ByteEager_read_rw get_bytelock s a) except len)"
| step_write: "ByteEager_step get_bytelock s
           (after (if tmwrite (st_tx s) = RO then ByteEager_write_ro get_bytelock s a v mk
                   else ByteEager_write_rw get_bytelock s a v mk) except len)"
| step_read_reserve: "ByteEager_step get_bytelock s
           (after (ByteEager_read_reserve get_bytelock s a) except len)"
| step_write_reserve: "ByteEager_step get_bytelock s
           (after (ByteEager_write_reserve get_bytelock s a) except len)"
| step_release: "ByteEager_step get_bytelock s (ByteEager_release get_bytelock s a)"
| step_commit: "ByteEager_step get_bytelock s
           (if tmcommit (st_tx s) = RO then ByteEager_commit_ro s else ByteEager_commit_rw s)"
| step_rollback: "ByteEager_step get_bytelock s (ByteEager_rollback s except len)"
| step_others: "st_tx s' = st_tx s \<Longrightarrow>
           (\<forall>l. (owner (st_bytelocks s' l) = tx_id (st_tx s)) = (owner (st_bytelocks s l) = tx_id (st_tx s))) \<Longrightarrow>
           ByteEager_step get_bytelock s s'"

text \<open>A thread starts in read-only mode with empty lists and owns no lock.\<close>

definition initial :: "stm_state \<Rightarrow> bool" where
  "initial s =
     (tx_id (st_tx s) \<noteq> 0 \<and> tmread (st_tx s) = RO \<and> tmwrite (st_tx s) = RO \<and>
      tmcommit (st_tx s) = RO \<and> w_bytelocks (st_tx s) = [] \<and>
      (\<forall>l. owner (st_bytelocks s l) \<noteq> tx_id (st_tx s)))"

inductive reachable :: "(addr \<Rightarrow> nat) \<Rightarrow> stm_state \<Rightarrow> bool"
  for get_bytelock :: "addr \<Rightarrow> nat" where
  reach_start: "initial s \<Longrightarrow> reachable get_bytelock s"
| reach_step: "reachable get_bytelock s \<Longrightarrow> ByteEager_step get_bytelock s s' \<Longrightarrow> reachable get_bytelock s'"

text \<open>
  The invariant: the three dispatch pointers agree, the write-lock list is empty in
  read-only mode, and every lock owned by the thread is in its write-lock list.
\<close>

definition mode_inv :: "stm_state \<Rightarrow> bool" where
  "mode_inv s =
     (tx_id (st_tx s) \<noteq> 0 \<and>
      (tmread (st_tx s) = RO \<and> tmwrite (st_tx s) = RO \<and> tmcommit (st_tx s) = RO \<and>
         w_bytelocks (st_tx s) = []
       \<or> tmread (st_tx s) = RW \<and> tmwrite (st_tx s) = RW \<and> tmcommit (st_tx s) = RW) \<and>
      (\<forall>l. owner (st_bytelocks s l) = tx_id (st_tx s) \<longrightarrow> l \<in> set (w_bytelocks (st_tx s))))"

text \<open>
  The part of the invariant that also holds where a barrier aborts: the id is not 0 and
  every lock owned by the thread is in its write-lock list.
\<close>

definition owns_inv :: "stm_state \<Rightarrow> bool" where
  "owns_inv s =
     (tx_id (st_tx s) \<noteq> 0 \<and>
      (\<forall>l. owner (st_bytelocks s l) = tx_id (st_tx s) \<longrightarrow> l \<in> set (w_bytelocks (st_tx s))))"

text \<open>A step that changes neither the dispatch pointers, the write-lock list nor any owner.\<close>

definition keeps :: "stm_state \<Rightarrow> stm_state \<Rightarrow> bool" where
  "keeps s s' =
     (tx_id (st_tx s') = tx_id (st_tx s) \<and> tmread (st_tx s') = tmread (st_tx s) \<and>
      tmwrite (st_tx s') = tmwrite (st_tx s) \<and> tmcommit (st_tx s') = tmcommit (st_tx s) \<and>
      w_bytelocks (st_tx s') = w_bytelocks (st_tx s) \<and>
      (\<forall>l. owner (st_bytelocks s' l) = owner (st_bytelocks s l)))"

text \<open>Thread 1 after reserving address 16 from the example state, and after the commit that follows.\<close>

definition after_reserve :: stm_state where
  "after_reserve = after (ByteEager_write_reserve example_get_bytelock example_state 16) NULL 0"

definition after_commit :: stm_state where
  "after_commit = (if tmcommit (st_tx after_reserve) = RO then ByteEager_commit_ro after_reserve
                   else ByteEager_commit_rw after_reserve)"

section \<open>Scope: words that clip can handle\<close>

text \<open>
  A logged word that is disjoint from the thrown object or lies inside it, and what
  \<open>clip\<close> makes of it.
\<close>

definition clippable :: "ThrownObject \<Rightarrow> LoggedWord \<Rightarrow> bool" where
  "clippable t w =
     (LoggedWord_end w \<le> ThrownObject_begin t \<or> LoggedWord_begin w \<ge> ThrownObject_end t \<or>
      (LoggedWord_begin w \<ge> ThrownObject_begin t \<and> LoggedWord_end w \<le> ThrownObject_end t))"

definition clipped :: "ThrownObject \<Rightarrow> LoggedWord \<Rightarrow> LoggedWord" where
  "clipped t w =
     (if LoggedWord_end w \<le> ThrownObject_begin t \<or> LoggedWord_begin w \<ge> ThrownObject_end t
      then w else w\<lparr>w_bytes := 0\<rparr>)"

text \<open>
  A scope with an object of eight bytes at 16, two rollback callbacks, and three logged
  words: at 8, at 16, and at 8 again.
\<close>

definition example_scope :: Scope where
  "example_scope = \<lparr>aborted = False, flags = 0, scope_id = 1, thrown = (16, 8),
      do_on_rollback = [\<lambda>m. m(100 := 1), \<lambda>m. m(100 := m 100 + 1)],
      undo_on_rollback = [\<lparr>w_address = 8, w_value = 0x0807060504030201, w_bytes = 8\<rparr>,
                          \<lparr>w_address = 16, w_value = 0x1817161514131211, w_bytes = 8\<rparr>,
                          \<lparr>w_address = 8, w_value = 0xFFFFFFFFFFFFFFFF, w_bytes = 8\<rparr>],
      do_on_commit = [\<lambda>m. m(200 := 1)]\<rparr>"

section \<open>Scope: clipping and rollback\<close>

lemma clip_disjoint:
  "LoggedWord_end w \<le> lower \<or> LoggedWord_begin w \<ge> upper \<Longrightarrow> clip w lower upper = Inr w"
  by (simp add: clip_def)

lemma clip_contained:
  "\<not> (LoggedWord_end w \<le> lower \<or> LoggedWord_begin w \<ge> upper) \<Longrightarrow>
   LoggedWord_begin w \<ge> lower \<Longrightarrow> LoggedWord_end w \<le> upper \<Longrightarrow>
   clip w lower upper = Inr (w\<lparr>w_bytes := 0\<rparr>)"
  by (simp add: clip_def)

text \<open>
  The two clipping statements compute what the policy asks for: a lower-end overlap
  truncates the byte count to the prefix below the range, an upper-end overlap shifts the
  value, moves the address to the end of the range and keeps the suffix.
\<close>

lemma clip_end_lower_overlap:
  "LoggedWord_begin w < lower \<Longrightarrow> lower < LoggedWord_end w \<Longrightarrow> LoggedWord_end w < upper \<Longrightarrow>
   clip_end w lower upper = w\<lparr>w_bytes := lower - w_address w\<rparr>"
  by (simp add: clip_end_def LoggedWord_begin_def)

lemma clip_begin_upper_overlap:
  "lower < LoggedWord_begin w \<Longrightarrow> LoggedWord_begin w < upper \<Longrightarrow> upper < LoggedWord_end w \<Longrightarrow>
   clip_begin (clip_end w lower upper) lower upper =
     w\<lparr>w_value := drop_bit ((upper - w_address w) * 8) (w_value w),
       w_bytes := w_address w + w_bytes w - upper, w_address := upper\<rparr>"
  by (simp add: clip_end_def clip_begin_def LoggedWord_begin_def LoggedWord_end_def)

text \<open>
  C1. The specification: for a logged word that partially overlaps the thrown-object range,
  \<open>clip\<close> applies the policy and returns normally, and the assertion labelled
  "unreachable" is not reached in the two handled cases. The code: neither clipping
  statement returns, so every word that is neither disjoint from the range nor contained
  in it, the two handled cases among them, runs into \<open>assert(false && "unreachable")\<close>.
\<close>

theorem clip_partial_overlap_reaches_unreachable:
  assumes "\<not> (LoggedWord_end w \<le> lower \<or> LoggedWord_begin w \<ge> upper)"
      and "\<not> (LoggedWord_begin w \<ge> lower \<and> LoggedWord_end w \<le> upper)"
  shows "clip w lower upper = Inl (AssertionFailed ''unreachable'')"
  using assms
  by (auto simp: clip_def clip_end_def clip_begin_def LoggedWord_begin_def LoggedWord_end_def Let_def)

text \<open>
  A word of eight bytes at 8 against the range from 12 to 24 (lower-end overlap), and a
  word of eight bytes at 16 against the range from 8 to 20 (upper-end overlap).
\<close>

theorem clip_handled_cases_example:
  "clip \<lparr>w_address = 8, w_value = 0x1122334455667788, w_bytes = 8\<rparr> 12 24
     = Inl (AssertionFailed ''unreachable'')
   \<and> clip \<lparr>w_address = 16, w_value = 0x1122334455667788, w_bytes = 8\<rparr> 8 20
     = Inl (AssertionFailed ''unreachable'')"
  using clip_partial_overlap_reaches_unreachable
          [of "\<lparr>w_address = 8, w_value = 0x1122334455667788, w_bytes = 8\<rparr>" 12 24]
        clip_partial_overlap_reaches_unreachable
          [of "\<lparr>w_address = 16, w_value = 0x1122334455667788, w_bytes = 8\<rparr>" 8 20]
  by (simp add: LoggedWord_begin_def LoggedWord_end_def)

subsection \<open>Rollback of a scope\<close>

lemma LoggedWord_undo_no_thrown:
  "LoggedWord_undo w (NULL, 0) m = Inr (w, memcpy m (w_address w) (w_value w) (w_bytes w))"
  by (simp add: LoggedWord_undo_def clip_def ThrownObject_begin_def ThrownObject_end_def NULL_def)

lemma undo_loop_no_thrown:
  "i \<le> length ws \<Longrightarrow>
   undo_loop i ws (NULL, 0) m =
     Inr (ws, foldl (\<lambda>m w. memcpy m (w_address w) (w_value w) (w_bytes w)) m (rev (take i ws)))"
proof (induction i arbitrary: m)
  case 0
  then show ?case by simp
next
  case (Suc i)
  then have lt: "i < length ws" by simp
  have "take (Suc i) ws = take i ws @ [ws ! i]"
    using lt by (simp add: take_Suc_conv_app_nth)
  then show ?case
    using Suc.IH [of "memcpy m (w_address (ws ! i)) (w_value (ws ! i)) (w_bytes (ws ! i))"] lt
    by (simp add: LoggedWord_undo_no_thrown)
qed

text \<open>Whenever an undo returns, it has left the bytes of the thrown object alone.\<close>

lemma LoggedWord_undo_protects:
  assumes "LoggedWord_undo w t m = Inr (w', m')"
      and "ThrownObject_begin t \<le> a" and "a < ThrownObject_end t"
  shows "m' a = m a"
  using assms
  by (auto simp: LoggedWord_undo_def clip_def memcpy_def LoggedWord_begin_def LoggedWord_end_def
      Let_def split: if_splits sum.splits)

lemma undo_loop_protects:
  assumes "undo_loop i ws t m = Inr (ws', m')"
      and "ThrownObject_begin t \<le> a" and "a < ThrownObject_end t"
  shows "m' a = m a"
  using assms
proof (induction i arbitrary: ws m)
  case 0
  then show ?case by simp
next
  case (Suc i)
  from Suc.prems(1) obtain w1 m1 where
    u: "LoggedWord_undo (ws ! i) t m = Inr (w1, m1)" and
    r: "undo_loop i (ws[i := w1]) t m1 = Inr (ws', m')"
    by (auto split: sum.splits)
  have "m1 a = m a" using LoggedWord_undo_protects [OF u Suc.prems(2,3)] .
  moreover have "m' a = m1 a" using Suc.IH [OF r Suc.prems(2,3)] .
  ultimately show ?case by simp
qed

text \<open>
  C4. The specification: for every scope, \<open>Scope::rollback\<close> replays the undo list in reverse
  with each entry clipped, runs the rollback callbacks in FIFO order, clears the commit
  callbacks, sets the aborted flag and returns the thrown-object pair. The code at a scope
  whose thrown object is the twelve bytes from 12 and whose undo list holds one word of
  eight bytes at 8: step 1 ends in the assertion of \<open>clip\<close>, and none of the steps 2
  to 5 is taken.
\<close>

theorem Scope_rollback_partial_overlap_fails:
  "Scope_rollback
     \<lparr>aborted = False, flags = 0, scope_id = 1, thrown = (12, 12), do_on_rollback = [],
      undo_on_rollback = [\<lparr>w_address = 8, w_value = 7, w_bytes = 8\<rparr>], do_on_commit = []\<rparr>
     (\<lambda>a. 0)
   = Inl (AssertionFailed ''unreachable'')"
  by (simp add: Scope_rollback_def LoggedWord_undo_def clip_def clip_end_def clip_begin_def
      LoggedWord_begin_def LoggedWord_end_def ThrownObject_begin_def ThrownObject_end_def Let_def)

text \<open>
  C8, as amended. For a scope whose thrown-object slot is empty (\<open>first == NULL\<close>),
  \<open>setThrownObject\<close> passes its assertion and records exactly the pair it is given. A
  second call with no \<open>clearThrownObject\<close> in between fails the assertion when the
  address recorded by the first call is not \<open>NULL\<close>; after a first call with address
  \<open>NULL\<close> the slot still reads as empty and the second call records its pair.
\<close>

theorem setThrownObject_once:
  assumes "fst (thrown s) = NULL"
  shows "setThrownObject s a len = Inr (s\<lparr>thrown := (a, len)\<rparr>)
     \<and> setThrownObject (s\<lparr>thrown := (a, len)\<rparr>) a' len' =
         (if a = NULL then Inr (s\<lparr>thrown := (a', len')\<rparr>)
          else Inl (AssertionFailed ''Only one thrown object expected per-scope''))"
  using assms by (simp add: setThrownObject_def)

theorem setThrownObject_once_witness:
  "setThrownObject
     \<lparr>aborted = False, flags = 0, scope_id = 1, thrown = (NULL, 0), do_on_rollback = [],
      undo_on_rollback = [], do_on_commit = []\<rparr> 4096 24
   = Inr \<lparr>aborted = False, flags = 0, scope_id = 1, thrown = (4096, 24), do_on_rollback = [],
      undo_on_rollback = [], do_on_commit = []\<rparr>
   \<and> setThrownObject
     \<lparr>aborted = False, flags = 0, scope_id = 1, thrown = (4096, 24), do_on_rollback = [],
      undo_on_rollback = [], do_on_commit = []\<rparr> 8192 16
   = Inl (AssertionFailed ''Only one thrown object expected per-scope'')"
  using setThrownObject_once
    [of "\<lparr>aborted = False, flags = 0, scope_id = 1, thrown = (NULL, 0), do_on_rollback = [],
      undo_on_rollback = [], do_on_commit = []\<rparr>" 4096 24 8192 16]
  by (simp add: NULL_def)

text \<open>
  The statement without that condition fails when the first call registers the address \<open>NULL\<close>: the
  second call then returns normally.
\<close>

theorem setThrownObject_twice_counterexample:
  "setThrownObject
     \<lparr>aborted = False, flags = 0, scope_id = 1, thrown = (NULL, 0), do_on_rollback = [],
      undo_on_rollback = [], do_on_commit = []\<rparr> NULL 24
   = Inr \<lparr>aborted = False, flags = 0, scope_id = 1, thrown = (NULL, 24), do_on_rollback = [],
      undo_on_rollback = [], do_on_commit = []\<rparr>
   \<and> setThrownObject
     \<lparr>aborted = False, flags = 0, scope_id = 1, thrown = (NULL, 24), do_on_rollback = [],
      undo_on_rollback = [], do_on_commit = []\<rparr> 8192 16
   = Inr \<lparr>aborted = False, flags = 0, scope_id = 1, thrown = (8192, 16), do_on_rollback = [],
      undo_on_rollback = [], do_on_commit = []\<rparr>"
  by (simp add: setThrownObject_def)

text \<open>
  C9. On a conflict abort \<open>tmabort\<close> hands \<open>restart\<close> the scope with its thrown-object
  pair cleared, whatever was registered before; and the rollback of that scope protects no
  byte: it returns normally, writes every logged word in full, newest first, runs the
  callbacks and returns the empty pair.
\<close>

theorem tmabort_clears_thrown_object:
  "tmabort restart s m = restart (s\<lparr>thrown := (NULL, 0)\<rparr>) m
   \<and> Scope_rollback (clearThrownObject s) m =
       Inr ((NULL, 0),
            s\<lparr>thrown := (NULL, 0), do_on_commit := [], aborted := True\<rparr>,
            eval_callbacks (do_on_rollback s)
              (foldl (\<lambda>m w. memcpy m (w_address w) (w_value w) (w_bytes w)) m
                 (rev (undo_on_rollback s))))"
  by (simp add: tmabort_def clearThrownObject_def ThrownObject_reset_def Scope_rollback_def
      undo_loop_no_thrown Let_def)

section \<open>UndoLog: undoing around an exception object\<close>

lemma bit_clear_byte_mask:
  "bit (clear_byte_mask mk i) n \<longleftrightarrow> bit mk n \<and> n div 8 \<noteq> i"
proof -
  have d: "(8 * i \<le> n \<and> n < 8 * i + 8) \<longleftrightarrow> n div 8 = i" by auto
  have "bit (clear_byte_mask mk i) n \<longleftrightarrow> bit mk n \<and> \<not> (8 * i \<le> n \<and> n < 8 * i + 8)"
    by (auto simp: clear_byte_mask_def bit_simps dest: bit_imp_le_length)
  then show ?thesis using d by simp
qed

lemma filterSlow_byte_fields [simp]:
  "ul_addr (filterSlow_byte lower upper e i) = ul_addr e"
  "ul_val (filterSlow_byte lower upper e i) = ul_val e"
  by (simp_all add: filterSlow_byte_def Let_def)

lemma bit_filterSlow_byte:
  "bit (ul_mask (filterSlow_byte lower upper e i)) n \<longleftrightarrow>
     bit (ul_mask e) n \<and> \<not> (lower \<le> ul_addr e + i \<and> ul_addr e + i < upper \<and> n div 8 = i)"
  by (auto simp: filterSlow_byte_def Let_def bit_clear_byte_mask)

lemma foldl_filterSlow_byte_fields [simp]:
  "ul_addr (foldl (filterSlow_byte lower upper) e is) = ul_addr e"
  "ul_val (foldl (filterSlow_byte lower upper) e is) = ul_val e"
  by (induction "is" arbitrary: e) simp_all

lemma bit_foldl_filterSlow_byte:
  "bit (ul_mask (foldl (filterSlow_byte lower upper) e is)) n \<longleftrightarrow>
     bit (ul_mask e) n \<and> \<not> (\<exists>i\<in>set is. lower \<le> ul_addr e + i \<and> ul_addr e + i < upper \<and> n div 8 = i)"
proof (induction "is" arbitrary: e)
  case Nil
  then show ?case by simp
next
  case (Cons i "is")
  show ?case
    unfolding foldl_Cons Cons.IH bit_filterSlow_byte filterSlow_byte_fields
    by auto
qed

lemma bit_filterSlow_mask:
  "bit (ul_mask (foldl (filterSlow_byte lower upper) e [0..<8])) n \<longleftrightarrow>
     bit (ul_mask e) n \<and> \<not> (lower \<le> ul_addr e + n div 8 \<and> ul_addr e + n div 8 < upper)"
proof (cases "n < 64")
  case True
  then have "n div 8 \<in> set [0..<8]" by auto
  then show ?thesis unfolding bit_foldl_filterSlow_byte by blast
next
  case False
  then have "\<not> bit (ul_mask e) n" by (auto dest: bit_imp_le_length)
  then show ?thesis unfolding bit_foldl_filterSlow_byte by simp
qed

lemma filter_disjoint:
  "ul_addr e + 8 \<le> lower \<or> upper \<le> ul_addr e \<Longrightarrow> UndoLogEntry_filter e lower upper = (False, e)"
  by (simp add: UndoLogEntry_filter_def)

lemma entry_mask_update_id:
  fixes e e' :: UndoLogEntry
  shows "ul_addr e' = ul_addr e \<Longrightarrow> ul_val e' = ul_val e \<Longrightarrow> e' = e\<lparr>ul_mask := ul_mask e'\<rparr>"
  by (cases e, cases e') simp

lemma filterSlow_result:
  "filterSlow e lower upper = (True, e) \<or>
   (\<exists>mk. filterSlow e lower upper = (mk = 0, e\<lparr>ul_mask := mk\<rparr>) \<and>
      (\<forall>n. bit mk n \<longleftrightarrow> bit (ul_mask e) n \<and> \<not> (lower \<le> ul_addr e + n div 8 \<and> ul_addr e + n div 8 < upper)))"
proof (cases "ul_addr e \<ge> lower \<and> ul_addr e + 8 < upper")
  case True
  then show ?thesis by (simp add: filterSlow_def)
next
  case False
  let ?e' = "foldl (filterSlow_byte lower upper) e [0..<8]"
  have "filterSlow e lower upper = (ul_mask ?e' = 0, ?e')"
    using False by (auto simp: filterSlow_def Let_def)
  moreover have "?e' = e\<lparr>ul_mask := ul_mask ?e'\<rparr>"
    by (rule entry_mask_update_id) simp_all
  ultimately have "filterSlow e lower upper = (ul_mask ?e' = 0, e\<lparr>ul_mask := ul_mask ?e'\<rparr>)"
    by simp
  then show ?thesis using bit_filterSlow_mask [of lower upper e] by blast
qed

lemma filterSlow_partial:
  assumes "\<not> (ul_addr e \<ge> lower \<and> ul_addr e + 8 < upper)"
  shows "\<exists>mk. filterSlow e lower upper = (mk = 0, e\<lparr>ul_mask := mk\<rparr>) \<and>
      (\<forall>n. bit mk n \<longleftrightarrow> bit (ul_mask e) n \<and> \<not> (lower \<le> ul_addr e + n div 8 \<and> ul_addr e + n div 8 < upper))"
proof -
  let ?e' = "foldl (filterSlow_byte lower upper) e [0..<8]"
  have "filterSlow e lower upper = (ul_mask ?e' = 0, ?e')"
    using assms by (auto simp: filterSlow_def Let_def)
  moreover have "?e' = e\<lparr>ul_mask := ul_mask ?e'\<rparr>"
    by (rule entry_mask_update_id) simp_all
  ultimately have "filterSlow e lower upper = (ul_mask ?e' = 0, e\<lparr>ul_mask := ul_mask ?e'\<rparr>)"
    by simp
  then show ?thesis using bit_filterSlow_mask [of lower upper e] by blast
qed

lemma filter_inside:
  assumes "\<forall>i<8. protected_byte exception len (ul_addr e + i)"
  shows "fst (UndoLogEntry_filter e exception (exception + len))"
proof -
  have lo: "exception \<le> ul_addr e" using assms [rule_format, of 0] by (simp add: protected_byte_def)
  have hi: "ul_addr e + 8 \<le> exception + len" using assms [rule_format, of 7] by (simp add: protected_byte_def)
  show ?thesis
  proof (cases "ul_addr e + 8 < exception + len")
    case True
    then show ?thesis using lo by (simp add: UndoLogEntry_filter_def filterSlow_def)
  next
    case False
    then obtain mk where
      f: "filterSlow e exception (exception + len) = (mk = 0, e\<lparr>ul_mask := mk\<rparr>)" and
      b: "\<forall>n. bit mk n \<longleftrightarrow> bit (ul_mask e) n \<and>
            \<not> (exception \<le> ul_addr e + n div 8 \<and> ul_addr e + n div 8 < exception + len)"
      using filterSlow_partial [of exception e "exception + len"] by auto
    have "\<not> bit mk n" for n
    proof
      assume bn: "bit mk n"
      then have "n < 64" by (auto dest: bit_imp_le_length)
      then have "n div 8 < 8" by simp
      then have "protected_byte exception len (ul_addr e + n div 8)" using assms by blast
      then show False using b bn by (simp add: protected_byte_def)
    qed
    then have "mk = 0" by (simp add: bit_eq_iff)
    then show ?thesis using f lo hi by (simp add: UndoLogEntry_filter_def)
  qed
qed

lemma undo_filter_loop_eq:
  "i \<le> length es \<Longrightarrow>
   undo_filter_loop i es lower upper m tr = (es', m', tr') \<Longrightarrow>
   tr' = tr @ map (\<lambda>e. snd (UndoLogEntry_filter e lower upper))
                (filter (\<lambda>e. \<not> fst (UndoLogEntry_filter e lower upper)) (rev (take i es)))
   \<and> m' = foldl (\<lambda>m e. UndoLogEntry_undo e m) m
            (map (\<lambda>e. snd (UndoLogEntry_filter e lower upper))
                (filter (\<lambda>e. \<not> fst (UndoLogEntry_filter e lower upper)) (rev (take i es))))"
proof (induction i arbitrary: es m tr)
  case 0
  then show ?case by simp
next
  case (Suc i)
  then have lt: "i < length es" by simp
  have tk: "take (Suc i) es = take i es @ [es ! i]"
    using lt by (simp add: take_Suc_conv_app_nth)
  obtain b e' where f: "UndoLogEntry_filter (es ! i) lower upper = (b, e')"
    by (cases "UndoLogEntry_filter (es ! i) lower upper")
  show ?case
  proof (cases b)
    case True
    with f Suc.prems have r: "undo_filter_loop i (es[i := e']) lower upper m tr = (es', m', tr')"
      by simp
    have "i \<le> length (es[i := e'])" using lt by simp
    from Suc.IH [OF this r] show ?thesis using f True tk by simp
  next
    case False
    with f Suc.prems have r: "undo_filter_loop i (es[i := e']) lower upper
        (UndoLogEntry_undo e' m) (tr @ [e']) = (es', m', tr')"
      by simp
    have "i \<le> length (es[i := e'])" using lt by simp
    from Suc.IH [OF this r] show ?thesis using f False tk by simp
  qed
qed

lemma foldl_undo_zero_masks:
  "\<forall>e\<in>set tr. ul_mask e = 0 \<Longrightarrow> foldl (\<lambda>m e. UndoLogEntry_undo e m) m tr = m"
  by (induction tr arbitrary: m) (simp_all add: UndoLogEntry_undo_def)

lemma filter_covered:
  assumes "\<forall>n. bit (ul_mask e) n \<longrightarrow> protected_byte exception len (ul_addr e + n div 8)"
  shows "fst (UndoLogEntry_filter e exception (exception + len))
       \<or> (UndoLogEntry_filter e exception (exception + len) = (False, e) \<and> ul_mask e = 0)"
proof (cases "ul_addr e + 8 \<le> exception \<or> exception + len \<le> ul_addr e")
  case True
  have "\<not> bit (ul_mask e) n" for n
  proof
    assume bn: "bit (ul_mask e) n"
    then have "n < 64" by (auto dest: bit_imp_le_length)
    then have "n div 8 < 8" by simp
    moreover have "protected_byte exception len (ul_addr e + n div 8)" using assms bn by blast
    ultimately show False using True by (auto simp: protected_byte_def)
  qed
  then have "ul_mask e = 0" by (simp add: bit_eq_iff)
  then show ?thesis using True by (simp add: UndoLogEntry_filter_def)
next
  case False
  consider "filterSlow e exception (exception + len) = (True, e)"
    | mk where "filterSlow e exception (exception + len) = (mk = 0, e\<lparr>ul_mask := mk\<rparr>)"
        "\<forall>n. bit mk n \<longleftrightarrow> bit (ul_mask e) n \<and>
            \<not> (exception \<le> ul_addr e + n div 8 \<and> ul_addr e + n div 8 < exception + len)"
    using filterSlow_result [of e exception "exception + len"] by blast
  then show ?thesis
  proof cases
    case 1
    then show ?thesis using False by (simp add: UndoLogEntry_filter_def)
  next
    case 2
    have "\<not> bit mk n" for n using 2(2) assms by (auto simp: protected_byte_def)
    then have "mk = 0" by (simp add: bit_eq_iff)
    then show ?thesis using 2(1) False by (simp add: UndoLogEntry_filter_def)
  qed
qed

lemma undo_filter_partial:
  assumes "\<exists>i<8. protected_byte exception len (ul_addr e + i)"
      and "\<exists>i<8. \<not> protected_byte exception len (ul_addr e + i)"
  shows "\<exists>mk. undo_filter exception len e = (mk = 0, e\<lparr>ul_mask := mk\<rparr>) \<and>
           (\<forall>n. bit mk n \<longleftrightarrow> bit (ul_mask e) n \<and> \<not> protected_byte exception len (ul_addr e + n div 8))"
proof -
  from assms(1) have nd: "\<not> (ul_addr e + 8 \<le> exception \<or> exception + len \<le> ul_addr e)"
    by (auto simp: protected_byte_def)
  from assms(2) have nt: "\<not> (ul_addr e \<ge> exception \<and> ul_addr e + 8 < exception + len)"
    by (auto simp: protected_byte_def)
  show ?thesis
    using filterSlow_partial [OF nt] nd
    by (simp add: undo_filter_def UndoLogEntry_filter_def protected_byte_def)
qed

lemma undo_filter_no_overlap:
  assumes "\<forall>i<8. \<not> protected_byte exception len (ul_addr e + i)"
  shows "snd (undo_filter exception len e) = e \<and>
         (fst (undo_filter exception len e) \<longrightarrow> ul_mask e = 0)"
proof (cases "ul_addr e + 8 \<le> exception \<or> exception + len \<le> ul_addr e")
  case True
  then show ?thesis by (simp add: undo_filter_def UndoLogEntry_filter_def)
next
  case False
  from assms [rule_format, of 0] have nt: "\<not> (ul_addr e \<ge> exception \<and> ul_addr e + 8 < exception + len)"
    by (auto simp: protected_byte_def)
  from filterSlow_partial [OF nt] obtain mk where
    f: "filterSlow e exception (exception + len) = (mk = 0, e\<lparr>ul_mask := mk\<rparr>)" and
    b: "\<forall>n. bit mk n \<longleftrightarrow> bit (ul_mask e) n \<and>
          \<not> (exception \<le> ul_addr e + n div 8 \<and> ul_addr e + n div 8 < exception + len)"
    by blast
  have "bit mk n \<longleftrightarrow> bit (ul_mask e) n" for n
  proof (cases "n < 64")
    case True
    then have "n div 8 < 8" by simp
    then show ?thesis using b assms by (auto simp: protected_byte_def)
  next
    case False
    then show ?thesis by (auto dest: bit_imp_le_length)
  qed
  then have "mk = ul_mask e" by (simp add: bit_eq_iff)
  then show ?thesis using f False by (simp add: undo_filter_def UndoLogEntry_filter_def)
qed

lemma undo_filter_loop_plain:
  assumes "\<forall>e\<in>set es. UndoLogEntry_filter e lower upper = (False, e)" and "i \<le> length es"
  shows "undo_filter_loop i es lower upper m tr =
           (case undo_plain_loop i es m tr of (m', tr') \<Rightarrow> (es, m', tr'))"
  using assms(2)
proof (induction i arbitrary: m tr)
  case 0
  then show ?case by simp
next
  case (Suc i)
  then have lt: "i < length es" by simp
  then have f: "UndoLogEntry_filter (es ! i) lower upper = (False, es ! i)"
    using assms(1) by simp
  show ?case using Suc.IH [of "UndoLogEntry_undo (es ! i) m" "tr @ [es ! i]"] lt f by simp
qed

text \<open>
  Without an exception object the unfiltered loop runs. It does what the filtering loop
  would do as long as no logged word starts below \<open>len\<close>, which is the case of every call
  with \<open>len = 0\<close>.
\<close>

lemma UndoLog_undo_as_filter_loop:
  assumes "exception = NULL \<longrightarrow> (\<forall>e\<in>set es. len \<le> ul_addr e)"
  shows "UndoLog_undo es exception len m =
           undo_filter_loop (length es) es exception (exception + len) m []"
proof (cases "exception = NULL")
  case False
  then show ?thesis by (simp add: UndoLog_undo_def Let_def)
next
  case True
  with assms have "\<forall>e\<in>set es. UndoLogEntry_filter e exception (exception + len) = (False, e)"
    by (simp add: UndoLogEntry_filter_def NULL_def)
  from undo_filter_loop_plain [OF this, of "length es" m "[]"] True
  show ?thesis by (simp add: UndoLog_undo_def)
qed

text \<open>
  C5. \<open>UndoLog::undo(exception, len)\<close> goes through the log newest first and applies the
  entries that pass the filter, each with the mask the filter left it: the writes performed
  are the unfiltered entries of the reversed log, and the memory is the result of applying
  them in that order. An entry whose eight bytes all lie in the range is skipped; an entry
  with bytes inside and bytes outside gets exactly the mask bits of the bytes inside
  cleared and is skipped when the mask that remains is zero; an entry with no byte in the
  range is left as it is (and is applied unless it had nothing to write). When the range
  covers every word of the log there is no write at all; when it covers every byte that
  the masks select, no applied entry has a mask bit left and the memory is unchanged.
  This holds for every exception object, and for the call without one (\<open>exception\<close> is
  \<open>NULL\<close>) as long as no logged word starts below \<open>len\<close>: the code tests the pointer and
  not the length, so that a \<open>NULL\<close> pointer with a length above a logged address, a range
  inside the page at address zero, is replayed unfiltered.
\<close>

theorem UndoLog_undo_exception_aware:
  assumes "exception = NULL \<longrightarrow> (\<forall>e\<in>set es. len \<le> ul_addr e)"
  shows "case UndoLog_undo es exception len m of (es', m', tr) \<Rightarrow>
           tr = map (\<lambda>e. snd (undo_filter exception len e))
                  (filter (\<lambda>e. \<not> fst (undo_filter exception len e)) (rev es))
         \<and> m' = foldl (\<lambda>m e. UndoLogEntry_undo e m) m tr
         \<and> (\<forall>e. (\<forall>i<8. protected_byte exception len (ul_addr e + i)) \<longrightarrow>
                 fst (undo_filter exception len e))
         \<and> (\<forall>e. (\<exists>i<8. protected_byte exception len (ul_addr e + i)) \<and>
                 (\<exists>i<8. \<not> protected_byte exception len (ul_addr e + i)) \<longrightarrow>
                 (\<exists>mk. undo_filter exception len e = (mk = 0, e\<lparr>ul_mask := mk\<rparr>) \<and>
                    (\<forall>n. bit mk n \<longleftrightarrow>
                       bit (ul_mask e) n \<and> \<not> protected_byte exception len (ul_addr e + n div 8))))
         \<and> (\<forall>e. (\<forall>i<8. \<not> protected_byte exception len (ul_addr e + i)) \<longrightarrow>
                 snd (undo_filter exception len e) = e \<and>
                 (fst (undo_filter exception len e) \<longrightarrow> ul_mask e = 0))
         \<and> ((\<forall>e\<in>set es. \<forall>i<8. protected_byte exception len (ul_addr e + i)) \<longrightarrow> tr = [] \<and> m' = m)
         \<and> ((\<forall>e\<in>set es. \<forall>n. bit (ul_mask e) n \<longrightarrow> protected_byte exception len (ul_addr e + n div 8)) \<longrightarrow>
                 (\<forall>e\<in>set tr. ul_mask e = 0) \<and> m' = m)"
proof -
  obtain es' m' tr where r: "UndoLog_undo es exception len m = (es', m', tr)"
    by (cases "UndoLog_undo es exception len m")
  let ?F = "undo_filter exception len"
  let ?tr = "map (\<lambda>e. snd (?F e)) (filter (\<lambda>e. \<not> fst (?F e)) (rev es))"
  from r UndoLog_undo_as_filter_loop [OF assms, of m]
  have "undo_filter_loop (length es) es exception (exception + len) m [] = (es', m', tr)"
    by simp
  from undo_filter_loop_eq [OF _ this]
  have tr: "tr = ?tr" and m': "m' = foldl (\<lambda>m e. UndoLogEntry_undo e m) m tr"
    by (simp_all add: undo_filter_def)
  have inside: "\<forall>e. (\<forall>i<8. protected_byte exception len (ul_addr e + i)) \<longrightarrow> fst (?F e)"
    using filter_inside by (simp add: undo_filter_def)
  have partial: "\<forall>e. (\<exists>i<8. protected_byte exception len (ul_addr e + i)) \<and>
                 (\<exists>i<8. \<not> protected_byte exception len (ul_addr e + i)) \<longrightarrow>
                 (\<exists>mk. ?F e = (mk = 0, e\<lparr>ul_mask := mk\<rparr>) \<and>
                    (\<forall>n. bit mk n \<longleftrightarrow>
                       bit (ul_mask e) n \<and> \<not> protected_byte exception len (ul_addr e + n div 8)))"
    using undo_filter_partial by blast
  have outside: "\<forall>e. (\<forall>i<8. \<not> protected_byte exception len (ul_addr e + i)) \<longrightarrow>
                 snd (?F e) = e \<and> (fst (?F e) \<longrightarrow> ul_mask e = 0)"
    using undo_filter_no_overlap by blast
  have all_inside: "tr = [] \<and> m' = m"
    if "\<forall>e\<in>set es. \<forall>i<8. protected_byte exception len (ul_addr e + i)"
  proof -
    have "filter (\<lambda>e. \<not> fst (?F e)) (rev es) = []"
      using that inside by (auto simp: filter_empty_conv)
    then have "tr = []" using tr by simp
    then show ?thesis using m' by simp
  qed
  have covered: "(\<forall>e\<in>set tr. ul_mask e = 0) \<and> m' = m"
    if c: "\<forall>e\<in>set es. \<forall>n. bit (ul_mask e) n \<longrightarrow> protected_byte exception len (ul_addr e + n div 8)"
  proof -
    have z: "\<forall>e\<in>set tr. ul_mask e = 0"
    proof
      fix e' assume "e' \<in> set tr"
      then obtain e where e: "e \<in> set es" "\<not> fst (?F e)" "e' = snd (?F e)"
        using tr by auto
      from filter_covered [of e exception len] c e(1)
      have "fst (?F e) \<or> (?F e = (False, e) \<and> ul_mask e = 0)"
        by (simp add: undo_filter_def)
      then show "ul_mask e' = 0" using e by auto
    qed
    then show ?thesis using m' foldl_undo_zero_masks by simp
  qed
  show ?thesis
    unfolding r prod.case
    using tr m' inside partial outside all_inside covered by blast
qed

text \<open>
  A log of three full words at 8, 16 and 24 and the range of twelve bytes from 16: the
  word at 24 is applied first with its four low bytes masked out, the word at 16 is
  skipped, the word at 8 is applied in full.
\<close>

theorem UndoLog_undo_exception_aware_witness:
  "(16::nat) \<noteq> NULL \<and>
   snd (snd (UndoLog_undo
     [\<lparr>ul_addr = 8, ul_val = 0x1111111111111111, ul_mask = 0xFFFFFFFFFFFFFFFF\<rparr>,
      \<lparr>ul_addr = 16, ul_val = 0x2222222222222222, ul_mask = 0xFFFFFFFFFFFFFFFF\<rparr>,
      \<lparr>ul_addr = 24, ul_val = 0x3333333333333333, ul_mask = 0xFFFFFFFFFFFFFFFF\<rparr>] 16 12 (\<lambda>a. 0)))
   = [\<lparr>ul_addr = 24, ul_val = 0x3333333333333333, ul_mask = 0xFFFFFFFF00000000\<rparr>,
      \<lparr>ul_addr = 8, ul_val = 0x1111111111111111, ul_mask = 0xFFFFFFFFFFFFFFFF\<rparr>]
   \<and> map (fst (snd (UndoLog_undo
     [\<lparr>ul_addr = 8, ul_val = 0x1111111111111111, ul_mask = 0xFFFFFFFFFFFFFFFF\<rparr>,
      \<lparr>ul_addr = 16, ul_val = 0x2222222222222222, ul_mask = 0xFFFFFFFFFFFFFFFF\<rparr>,
      \<lparr>ul_addr = 24, ul_val = 0x3333333333333333, ul_mask = 0xFFFFFFFFFFFFFFFF\<rparr>] 16 12 (\<lambda>a. 0)))) [8, 16, 24]
   = [0x1111111111111111, 0, 0x3333333300000000]"
  using UndoLog_undo_exception_aware [where exception = 16 and len = 12 and m = "\<lambda>a. 0" and es =
     "[\<lparr>ul_addr = 8, ul_val = 0x1111111111111111, ul_mask = 0xFFFFFFFFFFFFFFFF\<rparr>,
      \<lparr>ul_addr = 16, ul_val = 0x2222222222222222, ul_mask = 0xFFFFFFFFFFFFFFFF\<rparr>,
      \<lparr>ul_addr = 24, ul_val = 0x3333333333333333, ul_mask = 0xFFFFFFFFFFFFFFFF\<rparr>]"]
  by (simp add: NULL_def UndoLog_undo_def UndoLogEntry_undo_def UndoLogEntry_filter_def filterSlow_def filterSlow_byte_def clear_byte_mask_def Let_def upt_rec [of _ "numeral _"] mask_numeral)

section \<open>WriteSet: rebuild and resize\<close>

lemma next_available_finds:
  assumes "h < n" and "ix_version (idx ((h + k) mod n)) \<noteq> v"
      and "\<forall>j<k. ix_version (idx ((h + j) mod n)) = v"
  shows "next_available idx v n h = Some ((h + k) mod n)"
  using assms
proof (induction k arbitrary: h)
  case 0
  then show ?case by (subst next_available.simps) simp
next
  case (Suc k)
  from Suc.prems(3) [rule_format, of 0] Suc.prems(1) have occ: "ix_version (idx h) = v" by simp
  let ?h' = "(h + 1) mod n"
  have h': "?h' < n" using Suc.prems(1) by simp
  have eq: "(?h' + j) mod n = (h + Suc j) mod n" for j
    by (simp add: mod_add_left_eq)
  have "next_available idx v n ?h' = Some ((?h' + k) mod n)"
  proof (rule Suc.IH [OF h'])
    show "ix_version (idx ((?h' + k) mod n)) \<noteq> v" using Suc.prems(2) eq by simp
    show "\<forall>j<k. ix_version (idx ((?h' + j) mod n)) = v"
    proof (intro allI impI)
      fix j assume "j < k"
      then have "Suc j < Suc k" by simp
      with Suc.prems(3) have "ix_version (idx ((h + Suc j) mod n)) = v" by blast
      then show "ix_version (idx ((?h' + j) mod n)) = v" using eq by simp
    qed
  qed
  then show ?case using occ eq by (subst next_available.simps) simp
qed

lemma free_slot_distance:
  fixes idx :: "nat \<Rightarrow> index_t"
  assumes "h < n" and "f < n" and "ix_version (idx f) \<noteq> v"
  shows "\<exists>k<n. ix_version (idx ((h + k) mod n)) \<noteq> v \<and> (\<forall>j<k. ix_version (idx ((h + j) mod n)) = v)"
proof -
  let ?P = "\<lambda>k. ix_version (idx ((h + k) mod n)) \<noteq> v"
  let ?d = "(f + n - h) mod n"
  have "(h + ?d) mod n = (h + (f + n - h)) mod n" by (simp add: mod_add_right_eq)
  also have "\<dots> = (f + n) mod n" using assms(1) by simp
  also have "\<dots> = f" using assms(2) by simp
  finally have Pd: "?P ?d" using assms(3) by simp
  let ?k = "LEAST k. ?P k"
  have "?P ?k" using Pd by (rule LeastI)
  moreover have "?k \<le> ?d" using Pd by (rule Least_le)
  moreover have "?d < n" using assms(1) by simp
  moreover have "\<forall>j<?k. \<not> ?P j" using not_less_Least by blast
  ultimately show ?thesis by (intro exI [of _ ?k]) auto
qed

lemma exists_free_slot:
  assumes "occupied ws \<subseteq> {..<ws_ilength ws}" and "card (occupied ws) < ws_ilength ws"
  shows "\<exists>f<ws_ilength ws. ix_version (ws_index ws f) \<noteq> ws_version ws"
proof (rule ccontr)
  assume "\<not> ?thesis"
  then have "{..<ws_ilength ws} \<subseteq> occupied ws" by (auto simp: occupied_def)
  with assms(1) have "occupied ws = {..<ws_ilength ws}" by blast
  then have "card (occupied ws) = ws_ilength ws" by simp
  with assms(2) show False by simp
qed

lemma slot_of_index_update [simp]: "slot_of (ws\<lparr>ws_index := idx\<rparr>) = slot_of ws"
  by (simp add: slot_of_def fun_eq_iff)

lemma probe_slot_index_update [simp]: "probe_slot hash (ws\<lparr>ws_index := idx\<rparr>) = probe_slot hash ws"
  by (simp add: probe_slot_def fun_eq_iff)

lemma rebuild_step:
  assumes inv: "rebuild_inv hash ws i"
      and i: "i < ws_lsize ws" and small: "ws_lsize ws < ws_ilength ws"
      and range: "\<forall>a. hash (ws_shift ws) a < ws_ilength ws"
  shows "\<exists>h. next_available (ws_index ws) (ws_version ws) (ws_ilength ws)
                (hash (ws_shift ws) (wse_addr (ws_list ws i))) = Some h
           \<and> rebuild_inv hash (ws\<lparr>ws_index := (ws_index ws)(h := slot_of ws i)\<rparr>) (i + 1)"
proof -
  let ?N = "ws_ilength ws" and ?v = "ws_version ws" and ?idx = "ws_index ws"
  let ?H = "hash (ws_shift ws) (wse_addr (ws_list ws i))"
  from inv have ix: "indexed_upto hash ws i" and sub: "occupied ws \<subseteq> {..<?N}"
    and cd: "card (occupied ws) = i"
    and holds: "\<forall>h\<in>occupied ws. \<exists>i'<i. ?idx h = slot_of ws i'"
    by (simp_all add: rebuild_inv_def)
  have HN: "?H < ?N" using range by simp
  from cd i small have "card (occupied ws) < ?N" by simp
  from exists_free_slot [OF sub this] obtain f where f: "f < ?N" "ix_version (?idx f) \<noteq> ?v"
    by blast
  from free_slot_distance [of ?H ?N f ?idx ?v, OF HN f] obtain k where k: "k < ?N"
    and free: "ix_version (?idx ((?H + k) mod ?N)) \<noteq> ?v"
    and path: "\<forall>j<k. ix_version (?idx ((?H + j) mod ?N)) = ?v"
    by blast
  let ?h = "(?H + k) mod ?N"
  have na: "next_available ?idx ?v ?N ?H = Some ?h"
    using next_available_finds [of ?H ?N ?idx k ?v] HN free path by blast
  let ?ws' = "ws\<lparr>ws_index := ?idx(?h := slot_of ws i)\<rparr>"
  have hN: "?h < ?N" using HN by simp
  have hfree: "?h \<notin> occupied ws" using free by (simp add: occupied_def)
  have keep: "ws_index ?ws' x = ?idx x" if "x \<in> occupied ws" for x
    using that hfree by auto
  have occ': "occupied ?ws' = insert ?h (occupied ws)"
    by (auto simp: occupied_def slot_of_def)
  have fin: "finite (occupied ws)" using sub finite_subset by blast
  have sub': "occupied ?ws' \<subseteq> {..<ws_ilength ?ws'}" using occ' sub hN by auto
  have cd': "card (occupied ?ws') = i + 1" using occ' fin hfree cd by simp
  have holds': "\<forall>x\<in>occupied ?ws'. \<exists>i'<i + 1. ws_index ?ws' x = slot_of ?ws' i'"
  proof
    fix x assume "x \<in> occupied ?ws'"
    then consider "x = ?h" | "x \<in> occupied ws" "x \<noteq> ?h" using occ' by blast
    then show "\<exists>i'<i + 1. ws_index ?ws' x = slot_of ?ws' i'"
    proof cases
      case 1
      then show ?thesis by (intro exI [of _ i]) simp
    next
      case 2
      with holds obtain i' where "i' < i" "?idx x = slot_of ws i'" by blast
      then show ?thesis using 2 by (intro exI [of _ i']) simp
    qed
  qed
  have occI: "x \<in> occupied ws" if "?idx x = slot_of ws i'" for x i'
    using that by (simp add: occupied_def slot_of_def)
  have ix': "indexed_upto hash ?ws' (i + 1)"
    unfolding indexed_upto_def
  proof (intro allI impI)
    fix i0 assume "i0 < i + 1"
    then consider "i0 < i" | "i0 = i" by linarith
    then show "\<exists>k<ws_ilength ?ws'.
        ws_index ?ws' (probe_slot hash ?ws' i0 k) = slot_of ?ws' i0 \<and>
        (\<forall>j<k. \<exists>i'<i0. ws_index ?ws' (probe_slot hash ?ws' i0 j) = slot_of ?ws' i')"
    proof cases
      case 1
      with ix obtain k0 where k0: "k0 < ?N"
        "?idx (probe_slot hash ws i0 k0) = slot_of ws i0"
        "\<forall>j<k0. \<exists>i'<i0. ?idx (probe_slot hash ws i0 j) = slot_of ws i'"
        unfolding indexed_upto_def by blast
      have a: "ws_index ?ws' (probe_slot hash ws i0 k0) = slot_of ws i0"
        using keep [OF occI [OF k0(2)]] k0(2) by simp
      have b: "\<exists>i'<i0. ws_index ?ws' (probe_slot hash ws i0 j) = slot_of ws i'" if "j < k0" for j
      proof -
        from k0(3) that obtain i' where i': "i' < i0" "?idx (probe_slot hash ws i0 j) = slot_of ws i'"
          by blast
        then show ?thesis using keep [OF occI [OF i'(2)]] by auto
      qed
      show ?thesis using k0(1) a b by (intro exI [of _ k0]) simp
    next
      case 2
      have a: "ws_index ?ws' (probe_slot hash ws i k) = slot_of ws i"
        by (simp add: probe_slot_def)
      have b: "\<exists>i'<i. ws_index ?ws' (probe_slot hash ws i j) = slot_of ws i'" if "j < k" for j
      proof -
        from path that have "probe_slot hash ws i j \<in> occupied ws"
          by (simp add: occupied_def probe_slot_def)
        with holds keep show ?thesis by metis
      qed
      show ?thesis using 2 k a b by (intro exI [of _ k]) simp
    qed
  qed
  have "rebuild_inv hash ?ws' (i + 1)"
    unfolding rebuild_inv_def using ix' sub' cd' holds' by blast
  with na show ?thesis by blast
qed

lemma rebuild_loop_total:
  assumes "rebuild_inv hash ws i" and "i \<le> ws_lsize ws" and "ws_lsize ws < ws_ilength ws"
      and "\<forall>a. hash (ws_shift ws) a < ws_ilength ws"
  shows "\<exists>ws'. rebuild_loop hash i ws = Some ws' \<and> rebuild_inv hash ws' (ws_lsize ws) \<and>
           ws_shift ws' = ws_shift ws \<and> ws_ilength ws' = ws_ilength ws \<and>
           ws_version ws' = ws_version ws \<and> ws_list ws' = ws_list ws \<and>
           ws_capacity ws' = ws_capacity ws \<and> ws_lsize ws' = ws_lsize ws"
  using assms
proof (induction "ws_lsize ws - i" arbitrary: i ws)
  case 0
  then have "i = ws_lsize ws" by simp
  then show ?case using "0.prems"(1) by (subst rebuild_loop.simps) simp
next
  case (Suc d)
  then have lt: "i < ws_lsize ws" by simp
  from rebuild_step [OF Suc.prems(1) lt Suc.prems(3,4)] obtain h where
    na: "next_available (ws_index ws) (ws_version ws) (ws_ilength ws)
           (hash (ws_shift ws) (wse_addr (ws_list ws i))) = Some h" and
    inv': "rebuild_inv hash (ws\<lparr>ws_index := (ws_index ws)(h := slot_of ws i)\<rparr>) (i + 1)"
    by blast
  let ?ws1 = "ws\<lparr>ws_index := (ws_index ws)(h := slot_of ws i)\<rparr>"
  have d: "d = ws_lsize ?ws1 - (i + 1)" using Suc.hyps(2) by simp
  have "\<exists>ws'. rebuild_loop hash (i + 1) ?ws1 = Some ws' \<and> rebuild_inv hash ws' (ws_lsize ?ws1) \<and>
           ws_shift ws' = ws_shift ?ws1 \<and> ws_ilength ws' = ws_ilength ?ws1 \<and>
           ws_version ws' = ws_version ?ws1 \<and> ws_list ws' = ws_list ?ws1 \<and>
           ws_capacity ws' = ws_capacity ?ws1 \<and> ws_lsize ws' = ws_lsize ?ws1"
    using Suc.hyps(1) [OF d inv'] lt Suc.prems(3,4) by simp
  moreover have "rebuild_loop hash i ws = rebuild_loop hash (i + 1) ?ws1"
    using lt na by (subst rebuild_loop.simps) (simp add: slot_of_def)
  ultimately show ?case by simp
qed

lemma rebuild_inv_fresh:
  assumes "ws_version ws \<noteq> 0"
  shows "rebuild_inv hash (ws\<lparr>ws_index := (\<lambda>h. fresh_slot)\<rparr>) 0"
  using assms
  by (simp add: rebuild_inv_def indexed_upto_def occupied_def fresh_slot_def)

text \<open>
  C7. For a write set whose version is not 0, whose \<open>shift\<close> leaves room for an index of
  twice the length (at most \<open>2^30\<close> slots), whose list is shorter than the new index and
  whose hash stays below the new index length, \<open>rebuild\<close> returns, and then every list
  position \<open>i\<close> below \<open>lsize\<close> is reached by linear probing from
  \<open>hash(list[i].addr)\<close>: some slot on the probe path has the current version, the address
  of \<open>list[i]\<close> and the index \<open>i\<close>, and every slot before it on the path is in use by
  an earlier list position. \<open>resize\<close> doubles \<open>capacity\<close> and leaves \<open>lsize\<close> and the
  entries below \<open>lsize\<close>, hence their order, as they were.
\<close>

theorem rebuild_indexes_every_entry:
  assumes "ws_version ws \<noteq> 0" and "2 < ws_shift ws" and "ws_shift ws \<le> 32"
      and "ws_lsize ws < 2 ^ (33 - ws_shift ws)"
      and "\<forall>a. hash (ws_shift ws - 1) a < 2 ^ (33 - ws_shift ws)"
  shows "(\<exists>ws'. rebuild hash ws = Some (Inr ws') \<and>
            ws_ilength ws' = 2 ^ (33 - ws_shift ws) \<and> ws_version ws' = ws_version ws \<and>
            ws_list ws' = ws_list ws \<and> ws_lsize ws' = ws_lsize ws \<and>
            (\<forall>i<ws_lsize ws'. \<exists>k<ws_ilength ws'.
               ix_version (ws_index ws' (probe_slot hash ws' i k)) = ws_version ws' \<and>
               ix_address (ws_index ws' (probe_slot hash ws' i k)) = wse_addr (ws_list ws' i) \<and>
               ix_index (ws_index ws' (probe_slot hash ws' i k)) = i \<and>
               (\<forall>j<k. \<exists>i'<i. ws_index ws' (probe_slot hash ws' i j) = slot_of ws' i')))
       \<and> ws_capacity (resize fresh ws) = 2 * ws_capacity ws
       \<and> ws_lsize (resize fresh ws) = ws_lsize ws
       \<and> (\<forall>i<ws_lsize ws. ws_list (resize fresh ws) i = ws_list ws i)"
proof -
  let ?ws1 = "ws\<lparr>ws_shift := ws_shift ws - 1, ws_ilength := 2 ^ (32 - (ws_shift ws - 1))\<rparr>"
  let ?ws2 = "?ws1\<lparr>ws_index := (\<lambda>h. fresh_slot)\<rparr>"
  have e: "32 - (ws_shift ws - 1) = 33 - ws_shift ws" using assms(2,3) by simp
  have dbl: "doubleIndexLength ws = Inr ?ws1" using assms(2) by (simp add: doubleIndexLength_def)
  have inv0: "rebuild_inv hash ?ws2 0" using assms(1) rebuild_inv_fresh [of ?ws1 hash] by simp
  have "\<exists>ws'. rebuild_loop hash 0 ?ws2 = Some ws' \<and> rebuild_inv hash ws' (ws_lsize ?ws2) \<and>
           ws_shift ws' = ws_shift ?ws2 \<and> ws_ilength ws' = ws_ilength ?ws2 \<and>
           ws_version ws' = ws_version ?ws2 \<and> ws_list ws' = ws_list ?ws2 \<and>
           ws_capacity ws' = ws_capacity ?ws2 \<and> ws_lsize ws' = ws_lsize ?ws2"
    by (rule rebuild_loop_total [OF inv0]) (use assms(4,5) e in simp_all)
  then obtain ws' where loop: "rebuild_loop hash 0 ?ws2 = Some ws'"
    and inv: "rebuild_inv hash ws' (ws_lsize ws)"
    and same: "ws_ilength ws' = 2 ^ (33 - ws_shift ws)" "ws_version ws' = ws_version ws"
      "ws_list ws' = ws_list ws" "ws_lsize ws' = ws_lsize ws"
    using e by auto
  have r: "rebuild hash ws = Some (Inr ws')"
    using assms(1) dbl loop by (simp add: rebuild_def)
  from inv have "indexed_upto hash ws' (ws_lsize ws')"
    using same by (simp add: rebuild_inv_def)
  then have reach: "\<forall>i<ws_lsize ws'. \<exists>k<ws_ilength ws'.
               ix_version (ws_index ws' (probe_slot hash ws' i k)) = ws_version ws' \<and>
               ix_address (ws_index ws' (probe_slot hash ws' i k)) = wse_addr (ws_list ws' i) \<and>
               ix_index (ws_index ws' (probe_slot hash ws' i k)) = i \<and>
               (\<forall>j<k. \<exists>i'<i. ws_index ws' (probe_slot hash ws' i j) = slot_of ws' i')"
    unfolding indexed_upto_def
    by (metis (no_types, lifting) slot_of_def index_t.select_convs(1,2,3))
  have rs: "ws_capacity (resize fresh ws) = 2 * ws_capacity ws
       \<and> ws_lsize (resize fresh ws) = ws_lsize ws
       \<and> (\<forall>i<ws_lsize ws. ws_list (resize fresh ws) i = ws_list ws i)"
    by (simp add: resize_def)
  show ?thesis using r same reach rs by blast
qed


text \<open>
  Both addresses of the example hash to slot 0 of the new index of four slots: position 0
  is stored there and position 1 in the next slot.
\<close>

theorem rebuild_indexes_every_entry_witness:
  "ws_version example_ws \<noteq> 0 \<and> 2 < ws_shift example_ws \<and> ws_shift example_ws \<le> 32
   \<and> ws_lsize example_ws < 2 ^ (33 - ws_shift example_ws)
   \<and> (\<forall>a. example_hash (ws_shift example_ws - 1) a < 2 ^ (33 - ws_shift example_ws))
   \<and> (\<exists>ws'. rebuild example_hash example_ws = Some (Inr ws') \<and> ws_ilength ws' = 4 \<and>
         ws_index ws' 0 = \<lparr>ix_version = 1, ix_address = 8, ix_index = 0\<rparr> \<and>
         ws_index ws' 1 = \<lparr>ix_version = 1, ix_address = 16, ix_index = 1\<rparr> \<and>
         ws_index ws' 2 = fresh_slot \<and> ws_index ws' 3 = fresh_slot)
   \<and> ws_capacity (resize (\<lambda>i. \<lparr>wse_addr = 0, wse_val = 0, wse_mask = 0\<rparr>) example_ws) = 8
   \<and> map (ws_list (resize (\<lambda>i. \<lparr>wse_addr = 0, wse_val = 0, wse_mask = 0\<rparr>) example_ws)) [0, 1]
       = map (ws_list example_ws) [0, 1]"
proof -
  have h: "\<forall>a. example_hash (ws_shift example_ws - 1) a < 2 ^ (33 - ws_shift example_ws)"
    by (simp add: example_hash_def example_ws_def)
  have p: "ws_version example_ws \<noteq> 0" "2 < ws_shift example_ws" "ws_shift example_ws \<le> 32"
    "ws_lsize example_ws < 2 ^ (33 - ws_shift example_ws)"
    by (simp_all add: example_ws_def)
  show ?thesis
    using rebuild_indexes_every_entry [where ws = example_ws and hash = example_hash
        and fresh = "\<lambda>i. \<lparr>wse_addr = 0, wse_val = 0, wse_mask = 0\<rparr>"] p h
    by (simp add: rebuild_def example_ws_def example_hash_def doubleIndexLength_def
        rebuild_loop.simps next_available.simps fresh_slot_def resize_def)
qed

section \<open>ByteEager: the waiting loops\<close>

lemma read_spin_held: "owner lock \<noteq> 0 \<Longrightarrow> read_spin lock tries = None"
  by (induction lock tries rule: read_spin.induct) (subst read_spin.simps, simp)

lemma acquire_spin_Some:
  "acquire_spin lock my_id tries = Some lock1 \<Longrightarrow> owner lock = 0 \<and> lock1 = lock\<lparr>owner := my_id\<rparr>"
  by (induction lock my_id tries rule: acquire_spin.induct)
     (subst (asm) acquire_spin.simps, auto split: if_splits)

lemma acquire_spin_free:
  "owner lock = 0 \<Longrightarrow> acquire_spin lock my_id tries = Some (lock\<lparr>owner := my_id\<rparr>)"
  by (subst acquire_spin.simps) simp

lemma drain_spin_zero:
  "lock_alias lock i = (0, 0, 0, 0) \<Longrightarrow> drain_spin lock i tries"
  by (subst drain_spin.simps) simp

lemma drain_readers_zero:
  assumes "\<forall>j<64. reader lock j = 0"
  shows "drain_readers lock"
proof -
  have "drain_spin lock i 0" if "i < 16" for i
  proof (rule drain_spin_zero)
    from that have "4 * i < 64" "4 * i + 1 < 64" "4 * i + 2 < 64" "4 * i + 3 < 64" by simp_all
    with assms show "lock_alias lock i = (0, 0, 0, 0)" by (simp add: lock_alias_def)
  qed
  then show ?thesis by (simp add: drain_readers_def list_all_iff)
qed

section \<open>Irrevocability\<close>

text \<open>
  C10. The \<open>irrevoc\<close> entry of each registered algorithm, \<open>ByteEager::irrevoc\<close> and
  \<open>Nano::irrevoc\<close>, returns false for every descriptor and state and leaves the state
  as it is.
\<close>

theorem irrevoc_never_granted:
  "alg_irrevoc (stms alg) s = (False, s) \<and> ByteEager_irrevoc s = (False, s) \<and> Nano_irrevoc s = (False, s)"
  by (cases alg) (simp_all add: initTM_ByteEager_def initTM_Nano_def ByteEager_irrevoc_def Nano_irrevoc_def)

section \<open>Nano: read-write commit\<close>

lemma acquire_locks_Inl:
  "acquire_locks g es s = Inl sa \<Longrightarrow> st_mem sa = st_mem s"
proof (induction es arbitrary: s)
  case Nil
  then show ?case by simp
next
  case (Cons e es)
  then show ?case
    by (auto simp: Let_def bcasptr_def split: if_splits dest!: Cons.IH)
qed

lemma acquire_locks_Inr:
  assumes "acquire_locks g es s = Inr s1"
  shows "st_mem s1 = st_mem s \<and> nanorecs (st_tx s1) = nanorecs (st_tx s) \<and>
         writes (st_tx s1) = writes (st_tx s) \<and> my_lock (st_tx s1) = my_lock (st_tx s) \<and>
         (\<exists>new. locks (st_tx s1) = locks (st_tx s) @ new \<and>
            (\<forall>n\<in>set new. o_v (st_orecs s n) \<noteq> my_lock (st_tx s) \<and> \<not> lock_bit (o_v (st_orecs s n)) \<and>
                st_orecs s1 n = \<lparr>o_v = my_lock (st_tx s), o_p = o_v (st_orecs s n)\<rparr>) \<and>
            (\<forall>n. n \<notin> set new \<longrightarrow> st_orecs s1 n = st_orecs s n))"
  using assms
proof (induction es arbitrary: s)
  case Nil
  then show ?case by simp
next
  case (Cons e es)
  let ?n = "g (wse_addr e)"
  let ?ivt = "o_v (st_orecs s ?n)"
  show ?case
  proof (cases "?ivt \<noteq> my_lock (st_tx s)")
    case False
    with Cons.prems have "acquire_locks g es s = Inr s1" by (simp add: Let_def)
    from Cons.IH [OF this] show ?thesis .
  next
    case True
    let ?s' = "s\<lparr>st_orecs := (st_orecs s)(?n := \<lparr>o_v = my_lock (st_tx s), o_p = ?ivt\<rparr>),
                   st_tx := (st_tx s)\<lparr>locks := locks (st_tx s) @ [?n]\<rparr>\<rparr>"
    from True Cons.prems have unlocked: "\<not> lock_bit ?ivt" and r: "acquire_locks g es ?s' = Inr s1"
      by (auto simp: Let_def bcasptr_def split: if_splits)
    from Cons.IH [OF r] obtain new where
      same: "st_mem s1 = st_mem s" "nanorecs (st_tx s1) = nanorecs (st_tx s)"
        "writes (st_tx s1) = writes (st_tx s)" "my_lock (st_tx s1) = my_lock (st_tx s)" and
      lk: "locks (st_tx s1) = (locks (st_tx s) @ [?n]) @ new" and
      acq: "\<forall>n\<in>set new. o_v (st_orecs ?s' n) \<noteq> my_lock (st_tx s) \<and> \<not> lock_bit (o_v (st_orecs ?s' n)) \<and>
                st_orecs s1 n = \<lparr>o_v = my_lock (st_tx s), o_p = o_v (st_orecs ?s' n)\<rparr>" and
      rest: "\<forall>n. n \<notin> set new \<longrightarrow> st_orecs s1 n = st_orecs ?s' n"
      by auto
    have notin: "?n \<notin> set new" using acq by auto
    have a: "\<forall>n\<in>set (?n # new). o_v (st_orecs s n) \<noteq> my_lock (st_tx s) \<and> \<not> lock_bit (o_v (st_orecs s n)) \<and>
                st_orecs s1 n = \<lparr>o_v = my_lock (st_tx s), o_p = o_v (st_orecs s n)\<rparr>"
    proof
      fix n assume "n \<in> set (?n # new)"
      then consider "n = ?n" | "n \<in> set new" "n \<noteq> ?n" using notin by auto
      then show "o_v (st_orecs s n) \<noteq> my_lock (st_tx s) \<and> \<not> lock_bit (o_v (st_orecs s n)) \<and>
                st_orecs s1 n = \<lparr>o_v = my_lock (st_tx s), o_p = o_v (st_orecs s n)\<rparr>"
      proof cases
        case 1
        then show ?thesis using True unlocked rest notin by simp
      next
        case 2
        then show ?thesis using acq by auto
      qed
    qed
    have b: "\<forall>n. n \<notin> set (?n # new) \<longrightarrow> st_orecs s1 n = st_orecs s n"
      using rest by auto
    show ?thesis using same lk a b by (intro conjI exI [of _ "?n # new"]) simp_all
  qed
qed

lemma foldl_release_lock:
  "foldl release_lock orecs ns n =
     (if n \<in> set ns then (orecs n)\<lparr>o_v := o_p (orecs n) + 1\<rparr> else orecs n)"
proof (induction ns arbitrary: orecs)
  case Nil
  then show ?case by simp
next
  case (Cons a ns)
  show ?case by (simp add: Cons.IH) (simp add: release_lock_def)
qed

lemma nanorec_accepted_iff:
  "\<not> nanorec_fails s i \<longleftrightarrow>
     o_v (st_orecs s (nr_o i)) = nr_v i \<or>
     (o_v (st_orecs s (nr_o i)) = my_lock (st_tx s) \<and> nr_v i = o_p (st_orecs s (nr_o i)))"
  by (auto simp: nanorec_fails_def Let_def)

text \<open>
  C3. \<open>Nano::commit_rw\<close> first acquires the orecs of the write set; when that aborts,
  memory is untouched. Otherwise, in the state \<open>s1\<close> it has reached, a logged read
  \<open>(o, v)\<close> is accepted exactly when the word of \<open>o\<close> equals \<open>v\<close>, or the word of
  \<open>o\<close> is \<open>my_lock\<close> of the transaction and \<open>v\<close> equals the saved \<open>p\<close> of \<open>o\<close>. If
  some entry of the read set fails, the commit aborts in \<open>s1\<close>, whose memory is still
  the memory at entry. If none fails, the commit returns, the memory is the redo log
  written back entry by entry in insertion order, every orec of the lock list has
  \<open>v = p + 1\<close>, and for the orecs acquired during this commit \<open>p\<close> is the word they had
  at entry.
\<close>

theorem Nano_commit_rw_validates_then_writes_back:
  "case acquire_locks get_nanorec (WriteSet_entries (writes (st_tx s))) s of
     Inl sa \<Rightarrow> Nano_commit_rw get_nanorec s = Aborts sa \<and> st_mem sa = st_mem s
   | Inr s1 \<Rightarrow>
       st_mem s1 = st_mem s \<and> nanorecs (st_tx s1) = nanorecs (st_tx s) \<and>
       my_lock (st_tx s1) = my_lock (st_tx s) \<and>
       (\<forall>i. \<not> nanorec_fails s1 i \<longleftrightarrow>
          o_v (st_orecs s1 (nr_o i)) = nr_v i \<or>
          (o_v (st_orecs s1 (nr_o i)) = my_lock (st_tx s) \<and> nr_v i = o_p (st_orecs s1 (nr_o i)))) \<and>
       (if \<exists>i\<in>set (nanorecs (st_tx s)). nanorec_fails s1 i
        then Nano_commit_rw get_nanorec s = Aborts s1
        else \<exists>s'. Nano_commit_rw get_nanorec s = Returns () s' \<and>
               st_mem s' = foldl WriteSetEntry_writeback (st_mem s) (WriteSet_entries (writes (st_tx s))) \<and>
               (\<forall>n\<in>set (locks (st_tx s1)). o_v (st_orecs s' n) = o_p (st_orecs s1 n) + 1) \<and>
               (\<exists>new. locks (st_tx s1) = locks (st_tx s) @ new \<and>
                  (\<forall>n\<in>set new. o_p (st_orecs s1 n) = o_v (st_orecs s n) \<and>
                                 o_v (st_orecs s' n) = o_v (st_orecs s n) + 1)))"
proof (cases "acquire_locks get_nanorec (WriteSet_entries (writes (st_tx s))) s")
  case (Inl sa)
  then show ?thesis by (simp add: Nano_commit_rw_def acquire_locks_Inl)
next
  case (Inr s1)
  from acquire_locks_Inr [OF Inr] obtain new where
    same: "st_mem s1 = st_mem s" "nanorecs (st_tx s1) = nanorecs (st_tx s)"
      "writes (st_tx s1) = writes (st_tx s)" "my_lock (st_tx s1) = my_lock (st_tx s)" and
    lk: "locks (st_tx s1) = locks (st_tx s) @ new" and
    acq: "\<forall>n\<in>set new. o_v (st_orecs s n) \<noteq> my_lock (st_tx s) \<and> \<not> lock_bit (o_v (st_orecs s n)) \<and>
            st_orecs s1 n = \<lparr>o_v = my_lock (st_tx s), o_p = o_v (st_orecs s n)\<rparr>"
    by blast
  have crit: "\<forall>i. \<not> nanorec_fails s1 i \<longleftrightarrow>
          o_v (st_orecs s1 (nr_o i)) = nr_v i \<or>
          (o_v (st_orecs s1 (nr_o i)) = my_lock (st_tx s) \<and> nr_v i = o_p (st_orecs s1 (nr_o i)))"
    using nanorec_accepted_iff [of s1] same(4) by simp
  show ?thesis
  proof (cases "\<exists>i\<in>set (nanorecs (st_tx s)). nanorec_fails s1 i")
    case True
    then have "Nano_commit_rw get_nanorec s = Aborts s1"
      using Inr same by (simp add: Nano_commit_rw_def list_ex_iff)
    then show ?thesis
      unfolding Inr sum.case if_P [OF True] using same(1,2,4) crit by blast
  next
    case False
    let ?s2 = "s1\<lparr>st_mem := WriteSet_writeback (writes (st_tx s1)) (st_mem s1)\<rparr>"
    let ?s3 = "?s2\<lparr>st_orecs := foldl release_lock (st_orecs ?s2) (locks (st_tx ?s2))\<rparr>"
    let ?s4 = "?s3\<lparr>st_tx := (st_tx ?s3)\<lparr>nanorecs := [],
                   writes := WriteSet_reset (writes (st_tx ?s3)), locks := []\<rparr>\<rparr>"
    let ?s' = "OnReadWriteCommit ?s4"
    have c: "Nano_commit_rw get_nanorec s = Returns () ?s'"
      using Inr same False by (simp add: Nano_commit_rw_def list_ex_iff Let_def)
    have m: "st_mem ?s' = foldl WriteSetEntry_writeback (st_mem s) (WriteSet_entries (writes (st_tx s)))"
      using same by (simp add: OnReadWriteCommit_def WriteSet_writeback_def)
    have o: "st_orecs ?s' n = (if n \<in> set (locks (st_tx s1))
               then (st_orecs s1 n)\<lparr>o_v := o_p (st_orecs s1 n) + 1\<rparr> else st_orecs s1 n)" for n
      by (simp add: OnReadWriteCommit_def foldl_release_lock)
    have rel: "\<forall>n\<in>set (locks (st_tx s1)). o_v (st_orecs ?s' n) = o_p (st_orecs s1 n) + 1"
      using o by simp
    have new: "\<forall>n\<in>set new. o_p (st_orecs s1 n) = o_v (st_orecs s n) \<and>
                 o_v (st_orecs ?s' n) = o_v (st_orecs s n) + 1"
      using o acq lk by simp
    have "\<exists>s'. Nano_commit_rw get_nanorec s = Returns () s' \<and>
               st_mem s' = foldl WriteSetEntry_writeback (st_mem s) (WriteSet_entries (writes (st_tx s))) \<and>
               (\<forall>n\<in>set (locks (st_tx s1)). o_v (st_orecs s' n) = o_p (st_orecs s1 n) + 1) \<and>
               (\<exists>new. locks (st_tx s1) = locks (st_tx s) @ new \<and>
                  (\<forall>n\<in>set new. o_p (st_orecs s1 n) = o_v (st_orecs s n) \<and>
                                 o_v (st_orecs s' n) = o_v (st_orecs s n) + 1))"
      using c m rel new lk by blast
    then show ?thesis
      unfolding Inr sum.case if_not_P [OF False] using same(1,2,4) crit by blast
  qed
qed

text \<open>
  The first example commits: the read of orec 1 is accepted because the transaction holds
  it with \<open>p\<close> equal to the logged version, the read of orec 3 because the word is
  unchanged; addresses 8 and 16 receive 7 and orecs 1 and 2 go to version 1. The second
  aborts after acquiring orecs 1 and 2, with the memory as it was.
\<close>

theorem Nano_commit_rw_validates_then_writes_back_witness:
  "(\<exists>s'. Nano_commit_rw example_get_nanorec nano_commit_state = Returns () s' \<and>
       map (st_mem s') [8, 16, 24] = [7, 7, 42] \<and>
       map (\<lambda>n. o_v (st_orecs s' n)) [0, 1, 2, 3] = [0, 1, 1, 0])
   \<and> (\<exists>s'. Nano_commit_rw example_get_nanorec nano_stale_state = Aborts s' \<and>
       map (st_mem s') [8, 16, 24] = [42, 42, 42] \<and> locks (st_tx s') = [1, 2])"
  using Nano_commit_rw_validates_then_writes_back [of example_get_nanorec nano_commit_state]
        Nano_commit_rw_validates_then_writes_back [of example_get_nanorec nano_stale_state]
  by (simp add: Nano_commit_rw_def nano_commit_state_def nano_stale_state_def example_state_def
      example_tx_def example_ws_def example_get_nanorec_def WriteSet_entries_def
      WriteSet_writeback_def WriteSetEntry_writeback_def WriteSet_reset_def nanorec_fails_def
      release_lock_def OnReadWriteCommit_def bcasptr_def lock_bit_def Let_def
      upt_rec [of _ "numeral _"] bit_simps)

section \<open>ByteEager: the writer slot and the dispatch mode\<close>

lemma mode_inv_owns: "mode_inv s \<Longrightarrow> owns_inv s"
  by (auto simp: mode_inv_def owns_inv_def)

lemma keeps_mode_inv: "mode_inv s \<Longrightarrow> keeps s s' \<Longrightarrow> mode_inv s'"
  by (simp add: mode_inv_def keeps_def)

lemma keeps_owns_inv: "owns_inv s \<Longrightarrow> keeps s s' \<Longrightarrow> owns_inv s'"
  by (simp add: owns_inv_def keeps_def)

lemma keeps_refl: "keeps s s"
  by (simp add: keeps_def)

lemma keeps_trans: "keeps s s' \<Longrightarrow> keeps s' s'' \<Longrightarrow> keeps s s''"
  by (simp add: keeps_def)

lemma keeps_upd_lock:
  "(\<And>b. owner (f b) = owner b) \<Longrightarrow> keeps s (upd_lock l f s)"
  by (simp add: keeps_def upd_lock_def)

lemma read_lock_loop_keeps:
  "(case read_lock_loop s l a tries of Returns v s' \<Rightarrow> keeps s s' | Aborts s' \<Rightarrow> keeps s s')"
proof (cases "owner (st_bytelocks s l) = 0")
  case True
  then show ?thesis
    by (subst read_lock_loop.simps) (simp add: Let_def keeps_def upd_lock_def)
next
  case False
  let ?me = "tx_id (st_tx s) - 1"
  let ?s1 = "upd_lock l (\<lambda>b. b\<lparr>reader := (reader b)(?me := 1)\<rparr>) s"
  let ?s2 = "upd_lock l (\<lambda>b. b\<lparr>reader := (reader b)(?me := 0)\<rparr>) ?s1"
  have o1: "owner (st_bytelocks ?s1 l) \<noteq> 0" using False by (simp add: upd_lock_def)
  have o2: "owner (st_bytelocks ?s2 l) \<noteq> 0" using False by (simp add: upd_lock_def)
  have "read_lock_loop s l a tries = Aborts ?s2"
    using o1 read_spin_held [OF o2]
    by (subst read_lock_loop.simps) (simp add: Let_def)
  then show ?thesis by (simp add: keeps_def upd_lock_def)
qed

lemma read_ro_keeps:
  "(case ByteEager_read_ro g s a of Returns v s' \<Rightarrow> keeps s s' | Aborts s' \<Rightarrow> keeps s s')"
proof -
  let ?l = "g a" and ?me = "tx_id (st_tx s) - 1"
  let ?s1 = "if reader_version (st_bytelocks s ?l) ?me = 0
             then s\<lparr>st_tx := (st_tx s)\<lparr>r_bytelocks := r_bytelocks (st_tx s) @ [?l]\<rparr>\<rparr> else s"
  have k: "keeps s ?s1" by (simp add: keeps_def)
  show ?thesis
  proof (cases "reader (st_bytelocks s ?l) ?me = 1")
    case True
    then show ?thesis by (simp add: ByteEager_read_ro_def Let_def keeps_refl)
  next
    case False
    then have e: "ByteEager_read_ro g s a = read_lock_loop ?s1 ?l a 0"
      by (simp add: ByteEager_read_ro_def Let_def)
    show ?thesis
      using read_lock_loop_keeps [of ?s1 ?l a 0] k unfolding e
      by (auto split: outcome.splits intro: keeps_trans)
  qed
qed

lemma read_rw_keeps:
  "(case ByteEager_read_rw g s a of Returns v s' \<Rightarrow> keeps s s' | Aborts s' \<Rightarrow> keeps s s')"
proof -
  let ?l = "g a" and ?me = "tx_id (st_tx s) - 1"
  let ?s1 = "if reader_version (st_bytelocks s ?l) ?me = 0
             then s\<lparr>st_tx := (st_tx s)\<lparr>r_bytelocks := r_bytelocks (st_tx s) @ [?l]\<rparr>\<rparr> else s"
  have k: "keeps s ?s1" by (simp add: keeps_def)
  show ?thesis
  proof (cases "owner (st_bytelocks s ?l) = tx_id (st_tx s) \<or> reader (st_bytelocks s ?l) ?me = 1")
    case True
    then show ?thesis by (auto simp: ByteEager_read_rw_def Let_def keeps_refl)
  next
    case False
    then have e: "ByteEager_read_rw g s a = read_lock_loop ?s1 ?l a 0"
      by (simp add: ByteEager_read_rw_def Let_def)
    show ?thesis
      using read_lock_loop_keeps [of ?s1 ?l a 0] k unfolding e
      by (auto split: outcome.splits intro: keeps_trans)
  qed
qed

lemma write_acquire_Inl:
  "owns_inv s \<Longrightarrow> write_acquire s l = Inl sa \<Longrightarrow>
   owns_inv sa \<and> tmread (st_tx sa) = tmread (st_tx s) \<and> tmwrite (st_tx sa) = tmwrite (st_tx s) \<and>
   tmcommit (st_tx sa) = tmcommit (st_tx s)"
  by (auto simp: write_acquire_def Let_def upd_lock_def owns_inv_def
      split: option.splits if_splits dest!: acquire_spin_Some)

lemma write_acquire_Inr:
  "owns_inv s \<Longrightarrow> write_acquire s l = Inr s1 \<Longrightarrow>
   owns_inv s1 \<and> tmread (st_tx s1) = tmread (st_tx s) \<and> tmwrite (st_tx s1) = tmwrite (st_tx s) \<and>
   tmcommit (st_tx s1) = tmcommit (st_tx s) \<and> w_bytelocks (st_tx s1) = w_bytelocks (st_tx s) @ [l]"
  by (auto simp: write_acquire_def Let_def upd_lock_def owns_inv_def
      split: option.splits if_splits dest!: acquire_spin_Some)

lemma log_and_write_keeps: "keeps s (log_and_write s a v mk)"
  by (simp add: keeps_def log_and_write_def)

lemma foldl_release_write:
  "st_tx (foldl (\<lambda>s l. upd_lock l (\<lambda>b. b\<lparr>owner := 0\<rparr>) s) s ls) = st_tx s \<and>
   st_mem (foldl (\<lambda>s l. upd_lock l (\<lambda>b. b\<lparr>owner := 0\<rparr>) s) s ls) = st_mem s \<and>
   (\<forall>l. owner (st_bytelocks (foldl (\<lambda>s l. upd_lock l (\<lambda>b. b\<lparr>owner := 0\<rparr>) s) s ls) l) =
        (if l \<in> set ls then 0 else owner (st_bytelocks s l)))"
  by (induction ls arbitrary: s) (auto simp: upd_lock_def)

lemma release_write_locks_owner:
  "st_tx (release_write_locks s) = st_tx s \<and>
   (\<forall>l. owner (st_bytelocks (release_write_locks s) l) =
        (if l \<in> set (w_bytelocks (st_tx s)) then 0 else owner (st_bytelocks s l)))"
  using foldl_release_write [of s "w_bytelocks (st_tx s)"] by (simp add: release_write_locks_def)

lemma foldl_release_read:
  "st_tx (foldl (\<lambda>s l. upd_lock l (\<lambda>b. b\<lparr>reader := (reader b)(me := 0),
                                   reader_version := (reader_version b)(me := 0)\<rparr>) s) s ls) = st_tx s \<and>
   (\<forall>l. owner (st_bytelocks (foldl (\<lambda>s l. upd_lock l (\<lambda>b. b\<lparr>reader := (reader b)(me := 0),
                                   reader_version := (reader_version b)(me := 0)\<rparr>) s) s ls) l) =
        owner (st_bytelocks s l))"
  by (induction ls arbitrary: s) (auto simp: upd_lock_def)

lemma release_read_locks_keeps:
  "st_tx (release_read_locks s) = st_tx s \<and>
   (\<forall>l. owner (st_bytelocks (release_read_locks s) l) = owner (st_bytelocks s l))"
  using foldl_release_read [of "tx_id (st_tx s) - 1" s "r_bytelocks (st_tx s)"]
  by (simp add: release_read_locks_def Let_def)

lemma commit_rw_mode_inv: "owns_inv s \<Longrightarrow> mode_inv (ByteEager_commit_rw s)"
  using release_write_locks_owner [of s] release_read_locks_keeps [of "release_write_locks s"]
  by (auto simp: ByteEager_commit_rw_def Let_def OnReadWriteCommit_def mode_inv_def owns_inv_def)

lemma commit_ro_mode_inv: "mode_inv s \<Longrightarrow> mode_inv (ByteEager_commit_ro s)"
  using release_read_locks_keeps [of s]
  by (auto simp: ByteEager_commit_ro_def Let_def mode_inv_def)

lemma rollback_mode_inv: "owns_inv s \<Longrightarrow> mode_inv (ByteEager_rollback s except len)"
proof -
  assume o: "owns_inv s"
  obtain es m tr where u: "UndoLog_undo (undo_log (st_tx s)) except len (st_mem s) = (es, m, tr)"
    by (cases "UndoLog_undo (undo_log (st_tx s)) except len (st_mem s)")
  let ?s0 = "s\<lparr>st_mem := m, st_tx := (st_tx s)\<lparr>undo_log := es\<rparr>\<rparr>"
  have o0: "owns_inv ?s0" using o by (simp add: owns_inv_def)
  have "ByteEager_rollback s except len =
      OnReadWriteCommit ((release_read_locks (release_write_locks ?s0))
        \<lparr>st_tx := (st_tx (release_read_locks (release_write_locks ?s0)))
            \<lparr>r_bytelocks := [], w_bytelocks := [], undo_log := []\<rparr>\<rparr>)"
    by (simp add: ByteEager_rollback_def u Let_def)
  also have "\<dots> = ByteEager_commit_rw ?s0" by (simp add: ByteEager_commit_rw_def Let_def)
  finally show ?thesis using commit_rw_mode_inv [OF o0] by simp
qed

lemma after_mode_inv:
  assumes "case r of Returns v s' \<Rightarrow> mode_inv s' | Aborts sa \<Rightarrow> owns_inv sa"
  shows "mode_inv (after r except len)"
  using assms by (cases r) (simp_all add: after_def rollback_mode_inv)

lemma keeps_outcome:
  assumes "mode_inv s"
      and "case r of Returns v s' \<Rightarrow> keeps s s' | Aborts s' \<Rightarrow> keeps s s'"
  shows "case r of Returns v s' \<Rightarrow> mode_inv s' | Aborts sa \<Rightarrow> owns_inv sa"
  using assms
  by (cases r) (auto intro: keeps_mode_inv keeps_owns_inv mode_inv_owns)

lemma write_ro_outcome:
  assumes "mode_inv s"
  shows "case ByteEager_write_ro g s a v mk of Returns u s' \<Rightarrow> mode_inv s' | Aborts sa \<Rightarrow> owns_inv sa"
proof (cases "write_acquire s (g a)")
  case (Inl sa)
  with write_acquire_Inl [OF mode_inv_owns [OF assms] Inl] show ?thesis
    by (simp add: ByteEager_write_ro_def)
next
  case (Inr s1)
  from write_acquire_Inr [OF mode_inv_owns [OF assms] Inr] have "owns_inv s1" by simp
  then have "mode_inv (OnFirstWrite (log_and_write s1 a v mk))"
    by (simp add: mode_inv_def owns_inv_def OnFirstWrite_def log_and_write_def)
  with Inr show ?thesis by (simp add: ByteEager_write_ro_def)
qed

lemma write_rw_outcome:
  assumes "mode_inv s" and "tmwrite (st_tx s) \<noteq> RO"
  shows "case ByteEager_write_rw g s a v mk of Returns u s' \<Rightarrow> mode_inv s' | Aborts sa \<Rightarrow> owns_inv sa"
proof (cases "owner (st_bytelocks s (g a)) = tx_id (st_tx s)")
  case True
  then show ?thesis
    using keeps_mode_inv [OF assms(1) log_and_write_keeps] by (simp add: ByteEager_write_rw_def)
next
  case False
  from assms have rw: "tmread (st_tx s) = RW \<and> tmwrite (st_tx s) = RW \<and> tmcommit (st_tx s) = RW"
    by (auto simp: mode_inv_def)
  show ?thesis
  proof (cases "write_acquire s (g a)")
    case (Inl sa)
    with write_acquire_Inl [OF mode_inv_owns [OF assms(1)] Inl] False show ?thesis
      by (simp add: ByteEager_write_rw_def)
  next
    case (Inr s1)
    from write_acquire_Inr [OF mode_inv_owns [OF assms(1)] Inr] rw
    have "owns_inv s1" and "tmread (st_tx s1) = RW \<and> tmwrite (st_tx s1) = RW \<and> tmcommit (st_tx s1) = RW"
      by simp_all
    then have "mode_inv (log_and_write s1 a v mk)"
      by (simp add: mode_inv_def owns_inv_def log_and_write_def)
    with Inr False show ?thesis by (simp add: ByteEager_write_rw_def)
  qed
qed

lemma read_reserve_outcome:
  assumes "mode_inv s"
  shows "case ByteEager_read_reserve g s a of Returns u s' \<Rightarrow> mode_inv s' | Aborts sa \<Rightarrow> owns_inv sa"
  using keeps_outcome [OF assms read_rw_keeps [where g = g and s = s and a = a]]
  by (simp add: ByteEager_read_reserve_def split: outcome.splits)

lemma write_reserve_outcome:
  assumes "mode_inv s"
  shows "case ByteEager_write_reserve g s a of Returns u s' \<Rightarrow> mode_inv s' | Aborts sa \<Rightarrow> owns_inv sa"
  using assms
  by (auto simp: ByteEager_write_reserve_def Let_def upd_lock_def mode_inv_def owns_inv_def
      OnFirstWrite_def split: option.splits if_splits dest!: acquire_spin_Some)

lemma release_keeps: "keeps s (ByteEager_release g s a)"
  by (simp add: ByteEager_release_def Let_def keeps_def upd_lock_def)

lemma step_mode_inv:
  assumes "ByteEager_step g s s'" and "mode_inv s"
  shows "mode_inv s'"
  using assms
proof (induction rule: ByteEager_step.induct)
  case (step_read s a except len)
  show ?case
  proof (rule after_mode_inv)
    show "case (if tmread (st_tx s) = RO then ByteEager_read_ro g s a else ByteEager_read_rw g s a) of
            Returns v s' \<Rightarrow> mode_inv s' | Aborts sa \<Rightarrow> owns_inv sa"
      using keeps_outcome [OF step_read read_ro_keeps [where g = g and s = s and a = a]]
            keeps_outcome [OF step_read read_rw_keeps [where g = g and s = s and a = a]]
      by simp
  qed
next
  case (step_write s a v mk except len)
  show ?case
  proof (rule after_mode_inv)
    show "case (if tmwrite (st_tx s) = RO then ByteEager_write_ro g s a v mk
                else ByteEager_write_rw g s a v mk) of
            Returns v s' \<Rightarrow> mode_inv s' | Aborts sa \<Rightarrow> owns_inv sa"
      using write_ro_outcome [OF step_write] write_rw_outcome [OF step_write]
      by simp
  qed
next
  case (step_read_reserve s a except len)
  then show ?case by (intro after_mode_inv read_reserve_outcome)
next
  case (step_write_reserve s a except len)
  then show ?case by (intro after_mode_inv write_reserve_outcome)
next
  case (step_release s a)
  then show ?case using keeps_mode_inv release_keeps by blast
next
  case (step_commit s)
  then show ?case
    using commit_ro_mode_inv commit_rw_mode_inv mode_inv_owns by simp
next
  case (step_rollback s except len)
  then show ?case using rollback_mode_inv mode_inv_owns by blast
next
  case (step_others s' s)
  then show ?case by (simp add: mode_inv_def)
qed

lemma initial_mode_inv: "initial s \<Longrightarrow> mode_inv s"
  by (simp add: initial_def mode_inv_def)

lemma reachable_mode_inv: "reachable g s \<Longrightarrow> mode_inv s"
  by (induction rule: reachable.induct) (auto intro: initial_mode_inv step_mode_inv)

text \<open>The example state is a start, and the state after reserving address 16 from it.\<close>

lemma example_state_reachable: "reachable example_get_bytelock example_state"
  by (rule reachable.reach_start)
     (simp add: initial_def example_state_def example_tx_def free_lock_def)

lemma after_reserve_reachable: "reachable example_get_bytelock after_reserve"
  unfolding after_reserve_def
  by (rule reachable.reach_step [OF example_state_reachable ByteEager_step.step_write_reserve])

lemma after_reserve_state:
  "st_tx after_reserve = example_tx\<lparr>w_bytelocks := [2], undo_log := [word_undo_entry 16 42],
       tmread := RW, tmwrite := RW, tmcommit := RW\<rparr>
   \<and> st_mem after_reserve = (\<lambda>a. 42)
   \<and> st_bytelocks after_reserve = (\<lambda>l. free_lock)(2 := free_lock\<lparr>owner := 1, version := 2\<rparr>)"
proof -
  have d: "drain_readers (free_lock\<lparr>owner := 1, reader := (reader free_lock)(0 := 0)\<rparr>)"
    by (rule drain_readers_zero) (simp add: free_lock_def)
  have a: "acquire_spin free_lock 1 0 = Some (free_lock\<lparr>owner := 1\<rparr>)"
    by (rule acquire_spin_free) (simp add: free_lock_def)
  show ?thesis
    using d a
    by (simp add: after_reserve_def after_def ByteEager_write_reserve_def example_state_def
        example_tx_def example_get_bytelock_def Let_def upd_lock_def OnFirstWrite_def)
       (simp add: free_lock_def fun_eq_iff)
qed

text \<open>
  In every state a thread reaches from its start by barrier calls, commits and rollbacks,
  interleaved with steps of other threads, a transaction whose dispatch pointers are the
  read-only variants has an empty write-lock list and owns no lock.
\<close>

theorem read_only_mode_holds_no_write_lock:
  assumes "reachable g s" and "tmread (st_tx s) = RO"
  shows "w_bytelocks (st_tx s) = [] \<and> (\<forall>l. owner (st_bytelocks s l) \<noteq> tx_id (st_tx s))"
  using reachable_mode_inv [OF assms(1)] assms(2) by (auto simp: mode_inv_def)

text \<open>Reserving address 16 switches to read-write mode; the commit returns to read-only mode.\<close>

theorem read_only_mode_holds_no_write_lock_witness:
  "reachable example_get_bytelock after_commit \<and> tmread (st_tx after_commit) = RO
   \<and> tmcommit (st_tx after_reserve) = RW \<and> w_bytelocks (st_tx after_reserve) = [2]
   \<and> w_bytelocks (st_tx after_commit) = []
   \<and> (\<forall>l. owner (st_bytelocks after_commit l) \<noteq> tx_id (st_tx after_commit))"
proof -
  have i: "initial example_state"
    by (simp add: initial_def example_state_def example_tx_def free_lock_def)
  have r1: "reachable example_get_bytelock after_reserve"
    unfolding after_reserve_def
    by (rule reachable.reach_step [OF reachable.reach_start [OF i] ByteEager_step.step_write_reserve])
  have r2: "reachable example_get_bytelock after_commit"
    unfolding after_commit_def
    by (rule reachable.reach_step [OF r1 ByteEager_step.step_commit])
  have d: "drain_readers (free_lock\<lparr>owner := 1, reader := (reader free_lock)(0 := 0)\<rparr>)"
    by (rule drain_readers_zero) (simp add: free_lock_def)
  have a: "acquire_spin free_lock 1 0 = Some (free_lock\<lparr>owner := 1\<rparr>)"
    by (subst acquire_spin.simps) (simp add: free_lock_def)
  have rw: "tmcommit (st_tx after_reserve) = RW \<and> w_bytelocks (st_tx after_reserve) = [2]"
    using d a
    by (simp add: after_reserve_def after_def ByteEager_write_reserve_def example_state_def
        example_tx_def example_get_bytelock_def Let_def upd_lock_def OnFirstWrite_def)
       (simp add: free_lock_def)
  then have ro: "tmread (st_tx after_commit) = RO"
    by (simp add: after_commit_def ByteEager_commit_rw_def OnReadWriteCommit_def Let_def)
  show ?thesis
    using read_only_mode_holds_no_write_lock [OF r2 ro] r2 ro rw by simp
qed

subsection \<open>A read by the transaction that holds the writer slot\<close>

lemma read_rw_writer_slot:
  "owner (st_bytelocks s (g a)) = tx_id (st_tx s) \<Longrightarrow>
   ByteEager_read_rw g s a = Returns (st_mem s a) s"
  by (simp add: ByteEager_read_rw_def Let_def)

text \<open>
  C2. In every state that a thread reaches from its start, a read through the dispatch
  pointer \<open>tmread\<close> by a transaction that holds the writer slot of the lock of the
  address (\<open>lock->owner == tx->id\<close>) returns \<open>*addr\<close> at once and leaves the whole
  state, the reader bytes included, as it is: it neither waits nor aborts. The test is the
  first statement of \<open>read_rw\<close>. \<open>read_ro\<close> has no such test and needs none: a
  transaction that owns a lock has its dispatch pointers at the read-write variants,
  since \<open>write_ro\<close> and the first acquiring \<open>write_reserve\<close> end in \<open>OnFirstWrite\<close>, and
  \<open>commit_rw\<close> and \<open>rollback\<close> release the locks when they return the pointers to the
  read-only variants.
\<close>

theorem ByteEager_read_writer_slot:
  assumes "reachable get_bytelock s"
      and "owner (st_bytelocks s (get_bytelock a)) = tx_id (st_tx s)"
  shows "(if tmread (st_tx s) = RO then ByteEager_read_ro get_bytelock s a
          else ByteEager_read_rw get_bytelock s a) = Returns (st_mem s a) s"
proof -
  from reachable_mode_inv [OF assms(1)] assms(2)
  have "get_bytelock a \<in> set (w_bytelocks (st_tx s))" by (simp add: mode_inv_def)
  then have "w_bytelocks (st_tx s) \<noteq> []" by auto
  with reachable_mode_inv [OF assms(1)] have "tmread (st_tx s) = RW" by (auto simp: mode_inv_def)
  then show ?thesis
    using read_rw_writer_slot [where g = get_bytelock and s = s and a = a] assms(2) by simp
qed

text \<open>
  Thread 1 after reserving address 16 owns lock 2; its read of address 16 returns the 42
  of the memory and the state.
\<close>

theorem ByteEager_read_writer_slot_witness:
  "reachable example_get_bytelock after_reserve
   \<and> owner (st_bytelocks after_reserve (example_get_bytelock 16)) = tx_id (st_tx after_reserve)
   \<and> (if tmread (st_tx after_reserve) = RO then ByteEager_read_ro example_get_bytelock after_reserve 16
       else ByteEager_read_rw example_get_bytelock after_reserve 16) = Returns 42 after_reserve"
  using ByteEager_read_writer_slot [of example_get_bytelock after_reserve 16]
        after_reserve_reachable after_reserve_state
  by (simp add: example_get_bytelock_def example_tx_def free_lock_def)

subsection \<open>A reservation that acquires a lock\<close>



section \<open>Scope: rollback of words that clip can handle\<close>

lemma LoggedWord_undo_clippable:
  "clippable t w \<Longrightarrow>
   LoggedWord_undo w t m =
     Inr (clipped t w, memcpy m (w_address (clipped t w)) (w_value (clipped t w)) (w_bytes (clipped t w)))"
  by (auto simp: clippable_def clipped_def LoggedWord_undo_def clip_def)

lemma undo_loop_clippable:
  assumes "\<forall>w\<in>set ws. clippable t w" and "i \<le> length ws"
  shows "undo_loop i ws t m =
     Inr (map (clipped t) (take i ws) @ drop i ws,
          foldl (\<lambda>m w. memcpy m (w_address w) (w_value w) (w_bytes w)) m
            (rev (map (clipped t) (take i ws))))"
  using assms
proof (induction i arbitrary: ws m)
  case 0
  then show ?case by simp
next
  case (Suc i)
  then have lt: "i < length ws" by simp
  let ?w' = "clipped t (ws ! i)"
  let ?m' = "memcpy m (w_address ?w') (w_value ?w') (w_bytes ?w')"
  have c: "clippable t (ws ! i)" using Suc.prems(1) lt by simp
  have all': "\<forall>w\<in>set (ws[i := ?w']). clippable t w"
  proof
    fix w assume "w \<in> set (ws[i := ?w'])"
    then have "w = ?w' \<or> w \<in> set ws" using set_update_subset_insert by fastforce
    moreover have "clippable t ?w'"
      using c by (auto simp: clippable_def clipped_def LoggedWord_begin_def LoggedWord_end_def)
    ultimately show "clippable t w" using Suc.prems(1) by blast
  qed
  have len': "i \<le> length (ws[i := ?w'])" using lt by simp
  have tk: "take (Suc i) ws = take i ws @ [ws ! i]" using lt by (simp add: take_Suc_conv_app_nth)
  have dr: "drop i (ws[i := ?w']) = ?w' # drop (Suc i) ws"
    using lt by (simp add: drop_update_swap [symmetric] Cons_nth_drop_Suc [symmetric] upd_conv_take_nth_drop)
  show ?case
    using Suc.IH [OF all' len', of ?m'] LoggedWord_undo_clippable [OF c, of m] tk dr
    by simp
qed

text \<open>
  For a scope whose logged words are each disjoint from the thrown object or inside it,
  \<open>Scope::rollback\<close> returns: the words are replayed newest first, those inside the
  object with zero bytes; then the rollback callbacks run in registration order; the
  commit callbacks are cleared, the scope is marked aborted and the pair of the thrown
  object is returned.
\<close>

theorem Scope_rollback_steps:
  assumes "\<forall>w\<in>set (undo_on_rollback s). clippable (thrown s) w"
  shows "Scope_rollback s m =
     Inr (thrown s,
          s\<lparr>undo_on_rollback := map (clipped (thrown s)) (undo_on_rollback s),
            do_on_commit := [], aborted := True\<rparr>,
          eval_callbacks (do_on_rollback s)
            (foldl (\<lambda>m w. memcpy m (w_address w) (w_value w) (w_bytes w)) m
               (rev (map (clipped (thrown s)) (undo_on_rollback s)))))"
  using undo_loop_clippable [OF assms, of "length (undo_on_rollback s)" m]
  by (simp add: Scope_rollback_def Let_def)

text \<open>
  The word logged first at 8 is written last and wins; the word at 16 is skipped; the two
  callbacks run in order and leave 2 at 100; the commit callback does not run.
\<close>

theorem Scope_rollback_steps_witness:
  "(case Scope_rollback example_scope (\<lambda>a. 0) of
      Inl f \<Rightarrow> False
    | Inr (t, s', m') \<Rightarrow>
        t = (16, 8) \<and> aborted s' \<and> do_on_commit s' = [] \<and>
        map m' [8, 9, 15, 16, 23, 100, 200] = [1, 2, 8, 0, 0, 2, 0])"
  using Scope_rollback_steps [of example_scope "\<lambda>a. 0"]
  by (simp add: example_scope_def clippable_def clipped_def LoggedWord_begin_def LoggedWord_end_def
      ThrownObject_begin_def ThrownObject_end_def memcpy_def value_byte_def)

end
